theory Spec2Isabelle
  imports
    Complex_Main
    "HOL-Library.Multiset"
    "HOL-Library.Char_ord"
    "HOL-Library.List_Lexorder"
    "HOL-Library.Product_Lexorder"
begin

section \<open>Python values and exceptions\<close>

text \<open>
  The exceptions that the request handlers of \<^verbatim>\<open>app.py\<close> can raise.  A computation that
  may raise has type \<open>py_error + 'a\<close>, with \<open>Inl\<close> for the exception.  A value that may be
  Python's \<^verbatim>\<open>None\<close> (an SQL \<^verbatim>\<open>NULL\<close>) has an \<open>option\<close> type.
\<close>

datatype py_error = ValueError | TypeError | IndexError | DataDateError

text \<open>How an f-string prints a value that is a string or \<^verbatim>\<open>None\<close>.\<close>

fun py_str :: "string option \<Rightarrow> string" where
  "py_str None = ''None''"
| "py_str (Some s) = s"

section \<open>The datetime module\<close>

text \<open>
  A \<^verbatim>\<open>datetime\<close> built from a date only has all its time fields zero, so it is the triple
  (year, month, day); Python compares datetimes field by field, which is the lexicographic
  order on triples.
\<close>

type_synonym datetime = "nat \<times> nat \<times> nat"

definition dt_year :: "datetime \<Rightarrow> nat" where
  "dt_year d = fst d"

definition dt_month :: "datetime \<Rightarrow> nat" where
  "dt_month d = fst (snd d)"

definition dt_day :: "datetime \<Rightarrow> nat" where
  "dt_day d = snd (snd d)"

definition is_leap :: "nat \<Rightarrow> bool" where
  "is_leap y \<longleftrightarrow> y mod 4 = 0 \<and> (y mod 100 \<noteq> 0 \<or> y mod 400 = 0)"

definition days_in_month :: "nat \<Rightarrow> nat \<Rightarrow> nat" where
  "days_in_month y m =
     (if m = 2 then (if is_leap y then 29 else 28)
      else if m = 4 \<or> m = 6 \<or> m = 9 \<or> m = 11 then 30 else 31)"

text \<open>The checks of the \<^verbatim>\<open>datetime\<close> constructor (MINYEAR is 1, MAXYEAR is 9999).\<close>

definition check_date_fields :: "nat \<Rightarrow> nat \<Rightarrow> nat \<Rightarrow> bool" where
  "check_date_fields y m d \<longleftrightarrow>
     1 \<le> y \<and> y \<le> 9999 \<and> 1 \<le> m \<and> m \<le> 12 \<and> 1 \<le> d \<and> d \<le> days_in_month y m"

definition dt_datetime :: "nat \<Rightarrow> nat \<Rightarrow> nat \<Rightarrow> py_error + datetime" where
  "dt_datetime y m d = (if check_date_fields y m d then Inr (y, m, d) else Inl ValueError)"

subsection \<open>strptime with the format \<^verbatim>\<open>%Y-%m-%d\<close>\<close>

text \<open>
  \<^verbatim>\<open>strptime\<close> turns the format into the regular expression
  \<^verbatim>\<open>(\d\d\d\d)-(1[0-2]|0[1-9]|[1-9])-(3[0-1]|[1-2]\d|0[1-9]|[1-9]| [1-9])\<close>,
  matches it at the start of the string, raises ValueError when it does not match or when
  text remains after the match, and builds the date from the three numbers (ValueError again
  when they are no calendar date).  Strings are byte strings here and a digit is an ASCII
  digit; a string with another Unicode decimal digit, which Python's \<^verbatim>\<open>\d\<close> matches as
  well, is outside this model.
\<close>

definition in_range :: "char \<Rightarrow> char \<Rightarrow> char \<Rightarrow> bool" where
  "in_range lo hi c \<longleftrightarrow> lo \<le> c \<and> c \<le> hi"

definition is_digit :: "char \<Rightarrow> bool" where
  "is_digit c = in_range (CHR ''0'') (CHR ''9'') c"

definition digit_val :: "char \<Rightarrow> nat" where
  "digit_val c = of_char c - 48"

definition match_Y :: "string \<Rightarrow> (nat \<times> string) option" where
  "match_Y s =
     (case s of
        a # b # c # d # r \<Rightarrow>
          if is_digit a \<and> is_digit b \<and> is_digit c \<and> is_digit d
          then Some (1000 * digit_val a + 100 * digit_val b + 10 * digit_val c + digit_val d, r)
          else None
      | _ \<Rightarrow> None)"

definition match_dash :: "string \<Rightarrow> string option" where
  "match_dash s = (case s of c # r \<Rightarrow> if c = CHR ''-'' then Some r else None | _ \<Rightarrow> None)"

text \<open>
  The month group is followed by a dash in the pattern.  Its alternatives are tried in
  order; when one matches and no dash follows, no later alternative can succeed either (the
  one-character alternative would need the dash where the two-character one found a digit),
  so the ordered choice below is what the backtracking matcher computes.
\<close>

definition match_m :: "string \<Rightarrow> (nat \<times> string) option" where
  "match_m s =
     (case s of
        a # b # r \<Rightarrow>
          if a = CHR ''1'' \<and> in_range (CHR ''0'') (CHR ''2'') b then Some (10 + digit_val b, r)
          else if a = CHR ''0'' \<and> in_range (CHR ''1'') (CHR ''9'') b then Some (digit_val b, r)
          else if in_range (CHR ''1'') (CHR ''9'') a then Some (digit_val a, b # r)
          else None
      | [a] \<Rightarrow> if in_range (CHR ''1'') (CHR ''9'') a then Some (digit_val a, []) else None
      | [] \<Rightarrow> None)"

text \<open>The day group ends the pattern: the first alternative that matches is taken.\<close>

definition match_d :: "string \<Rightarrow> (nat \<times> string) option" where
  "match_d s =
     (case s of
        a # b # r \<Rightarrow>
          if a = CHR ''3'' \<and> in_range (CHR ''0'') (CHR ''1'') b then Some (30 + digit_val b, r)
          else if in_range (CHR ''1'') (CHR ''2'') a \<and> is_digit b
            then Some (10 * digit_val a + digit_val b, r)
          else if a = CHR ''0'' \<and> in_range (CHR ''1'') (CHR ''9'') b then Some (digit_val b, r)
          else if in_range (CHR ''1'') (CHR ''9'') a then Some (digit_val a, b # r)
          else if a = CHR '' '' \<and> in_range (CHR ''1'') (CHR ''9'') b then Some (digit_val b, r)
          else None
      | [a] \<Rightarrow> if in_range (CHR ''1'') (CHR ''9'') a then Some (digit_val a, []) else None
      | [] \<Rightarrow> None)"

text \<open>\<^verbatim>\<open>strptime(None, ...)\<close> raises TypeError.\<close>

fun strptime :: "string option \<Rightarrow> py_error + datetime" where
  "strptime None = Inl TypeError"
| "strptime (Some s) =
     (case match_Y s of
        None \<Rightarrow> Inl ValueError
      | Some (y, s1) \<Rightarrow>
     (case match_dash s1 of
        None \<Rightarrow> Inl ValueError
      | Some s2 \<Rightarrow>
     (case match_m s2 of
        None \<Rightarrow> Inl ValueError
      | Some (m, s3) \<Rightarrow>
     (case match_dash s3 of
        None \<Rightarrow> Inl ValueError
      | Some s4 \<Rightarrow>
     (case match_d s4 of
        None \<Rightarrow> Inl ValueError
      | Some (d, s5) \<Rightarrow>
          if s5 \<noteq> [] then Inl ValueError else dt_datetime y m d)))))"

subsection \<open>Printing a date\<close>

definition digit_char :: "nat \<Rightarrow> char" where
  "digit_char n = char_of (48 + n mod 10)"

text \<open>\<^verbatim>\<open>%04d\<close> and \<^verbatim>\<open>%02d\<close>, for the numbers of a date (below 10000 and below 100).\<close>

definition pad4 :: "nat \<Rightarrow> string" where
  "pad4 n = [digit_char (n div 1000), digit_char (n div 100), digit_char (n div 10), digit_char n]"

definition pad2 :: "nat \<Rightarrow> string" where
  "pad2 n = [digit_char (n div 10), digit_char n]"

text \<open>The date in the form \<^verbatim>\<open>YYYY-MM-DD\<close> in which the dataset stores it.\<close>

definition iso_format :: "datetime \<Rightarrow> string" where
  "iso_format d = pad4 (dt_year d) @ ''-'' @ pad2 (dt_month d) @ ''-'' @ pad2 (dt_day d)"

text \<open>
  A datetime compared with the text column \<^verbatim>\<open>date\<close> is bound as a DateTime parameter,
  which the SQLite dialect renders as text with the time of day.
\<close>

definition bind_datetime :: "datetime \<Rightarrow> string" where
  "bind_datetime d = iso_format d @ '' 00:00:00.000000''"

text \<open>A date string is in the stored form when parsing and printing give it back.\<close>

definition is_iso_date :: "string \<Rightarrow> bool" where
  "is_iso_date s = (case strptime (Some s) of Inr d \<Rightarrow> iso_format d = s | Inl _ \<Rightarrow> False)"

section \<open>The dataset\<close>

text \<open>
  A row of the table \<^verbatim>\<open>measurement\<close>, with the columns the queries read: the station
  identifier, the date as text, and the precipitation and the temperature observation,
  which may be \<^verbatim>\<open>NULL\<close>.  The two numbers are doubles (the columns are \<^verbatim>\<open>FLOAT\<close>); a
  double is modelled by the rational number it denotes, and the arithmetic on these
  numbers rounds as the arithmetic on doubles does.  The dataset is the list of rows in the
  order of their row identifiers; no handler changes it.
\<close>

record measurement =
  m_station :: string
  m_date :: string
  m_prcp :: "rat option"
  m_tobs :: "rat option"

type_synonym dataset = "measurement list"

subsection \<open>Double-precision arithmetic\<close>

text \<open>
  An operation on doubles returns the double nearest to the exact result, a tie going to the
  even significand (53 bits).  \<open>double x\<close> is that nearest double of a rational \<open>x\<close>; the
  range of the exponent is not bounded here, so there is neither overflow nor a subnormal
  number.
\<close>

function bit_length :: "int \<Rightarrow> nat" where
  "bit_length n = (if n \<le> 0 then 0 else Suc (bit_length (n div 2)))"
  by pat_completeness auto
termination
  by (relation "measure nat") auto

definition round_half_even :: "rat \<Rightarrow> int" where
  "round_half_even x =
     (let f = \<lfloor>x\<rfloor>; r = x - of_int f
      in if r < 1 / 2 then f else if 1 / 2 < r then f + 1
         else if even f then f else f + 1)"

text \<open>For \<open>0 < x\<close>, the exponent \<open>e\<close> with \<open>2 ^ e \<le> x < 2 ^ (e + 1)\<close>.\<close>

definition ilog2 :: "rat \<Rightarrow> int" where
  "ilog2 x =
     (if 1 \<le> x then int (bit_length \<lfloor>x\<rfloor>) - 1
      else let k = int (bit_length \<lfloor>1 / x\<rfloor>)
           in if x * 2 ^ nat (k - 1) = 1 then 1 - k else - k)"

definition double :: "rat \<Rightarrow> rat" where
  "double x =
     (if x = 0 then 0
      else let e = ilog2 \<bar>x\<bar> - 52
           in sgn x * of_int (round_half_even (\<bar>x\<bar> / 2 powi e)) * 2 powi e)"

subsection \<open>SQL aggregates and comparisons\<close>

text \<open>An aggregate skips \<^verbatim>\<open>NULL\<close>s and is \<^verbatim>\<open>NULL\<close> when nothing is left.\<close>

fun non_null :: "'a option list \<Rightarrow> 'a list" where
  "non_null [] = []"
| "non_null (None # vs) = non_null vs"
| "non_null (Some v # vs) = v # non_null vs"

definition sql_min :: "('a::linorder) option list \<Rightarrow> 'a option" where
  "sql_min vs = (case non_null vs of [] \<Rightarrow> None | x # xs \<Rightarrow> Some (fold min xs x))"

definition sql_max :: "('a::linorder) option list \<Rightarrow> 'a option" where
  "sql_max vs = (case non_null vs of [] \<Rightarrow> None | x # xs \<Rightarrow> Some (fold max xs x))"

text \<open>
  \<^verbatim>\<open>avg\<close> on doubles, as SQLite computes it: the values are added in the order of the
  rows with a running sum and a running compensation for its rounding error (the
  Kahan-Babuska-Neumaier summation), then sum plus compensation is divided by the count.
\<close>

definition kbn_step :: "rat \<times> rat \<Rightarrow> rat \<Rightarrow> rat \<times> rat" where
  "kbn_step ctx r =
     (case ctx of (rSum, rErr) \<Rightarrow>
        let s = rSum; t = double (s + r)
        in if \<bar>r\<bar> < \<bar>s\<bar> then (t, double (rErr + double (double (s - t) + r)))
           else (t, double (rErr + double (double (r - t) + s))))"

definition double_mean :: "rat list \<Rightarrow> rat" where
  "double_mean xs =
     (case foldl kbn_step (0, 0) xs of (rSum, rErr) \<Rightarrow>
        double (double (rSum + rErr) / of_nat (length xs)))"

definition sql_avg :: "rat option list \<Rightarrow> rat option" where
  "sql_avg vs = (case non_null vs of [] \<Rightarrow> None | x # xs \<Rightarrow> Some (double_mean (x # xs)))"

text \<open>\<^verbatim>\<open>v BETWEEN a AND b\<close> on text; a comparison with \<^verbatim>\<open>NULL\<close> selects no row.\<close>

fun sql_between :: "string \<Rightarrow> string option \<Rightarrow> string option \<Rightarrow> bool" where
  "sql_between v (Some a) (Some b) = (a \<le> v \<and> v \<le> b)"
| "sql_between v _ _ = False"

text \<open>
  \<^verbatim>\<open>ORDER BY\<close>: SQL leaves the order of rows with equal keys open; SQLite returns them
  in the order of their arrival for an ascending key, and in the reverse of it for a
  descending key.
\<close>

definition order_by :: "('a \<Rightarrow> 'k::linorder) \<Rightarrow> 'a list \<Rightarrow> 'a list" where
  "order_by k rows = sort_key k rows"

definition order_by_desc :: "('a \<Rightarrow> 'k::linorder) \<Rightarrow> 'a list \<Rightarrow> 'a list" where
  "order_by_desc k rows = rev (sort_key k rows)"

definition date_column :: "dataset \<Rightarrow> string option list" where
  "date_column ds = map (\<lambda>m. Some (m_date m)) ds"

section \<open>Temperature function\<close>

definition temp_stats ::
    "dataset \<Rightarrow> string option \<Rightarrow> string option \<Rightarrow> rat option \<times> rat option \<times> rat option" where
  "temp_stats ds start_date end_date =
     (let rows = filter (\<lambda>m. sql_between (m_date m) start_date end_date) ds
      in (sql_min (map m_tobs rows), sql_avg (map m_tobs rows), sql_max (map m_tobs rows)))"

section \<open>Responses\<close>

text \<open>
  A response is a text, a page of temperature statistics (the two dates, the minimum, the
  maximum and the rounded average that the f-string interpolates), or a JSON list.
\<close>

datatype response =
    Text string
  | Stats string string "rat option" "rat option" rat
  | PrcpJson "(string \<times> rat option) list"
  | TempJson "(string \<times> string \<times> rat option) list"

definition bind :: "py_error + 'a \<Rightarrow> ('a \<Rightarrow> py_error + 'b) \<Rightarrow> py_error + 'b" where
  "bind r f = (case r of Inl e \<Rightarrow> Inl e | Inr v \<Rightarrow> f v)"

text \<open>
  \<^verbatim>\<open>round(x, 1)\<close> on a double: the value is rounded to one decimal place (a tie to the
  even neighbour) and the result is the double nearest to that decimal number.
\<close>

definition py_round1 :: "rat \<Rightarrow> rat" where
  "py_round1 x = double (of_int (round_half_even (x * 10)) / 10)"

text \<open>
  The page returned after the query.  \<^verbatim>\<open>round(TAvg, 1)\<close> raises TypeError when the
  average is \<^verbatim>\<open>None\<close>.
\<close>

definition stats_page ::
    "string option \<Rightarrow> string option \<Rightarrow> rat option \<times> rat option \<times> rat option
      \<Rightarrow> py_error + response" where
  "stats_page start_date end_date stats =
     (case stats of (TMin, TAvg, TMax) \<Rightarrow>
        (case TAvg of
           None \<Rightarrow> Inl TypeError
         | Some a \<Rightarrow> Inr (Stats (py_str start_date) (py_str end_date) TMin TMax (py_round1 a))))"

text \<open>The comparisons \<^verbatim>\<open>strptime(a, f) > strptime(b, f)\<close> and \<^verbatim>\<open><\<close>, left operand first.\<close>

definition dt_gt :: "string option \<Rightarrow> string option \<Rightarrow> py_error + bool" where
  "dt_gt a b = bind (strptime a) (\<lambda>x. bind (strptime b) (\<lambda>y. Inr (y < x)))"

definition dt_lt :: "string option \<Rightarrow> string option \<Rightarrow> py_error + bool" where
  "dt_lt a b = bind (strptime a) (\<lambda>x. bind (strptime b) (\<lambda>y. Inr (x < y)))"

section \<open>Routes\<close>

subsection \<open>\<^verbatim>\<open>/api/v1.0/precipitation\<close>\<close>

text \<open>The date one year before: same month and day, ValueError when there is no such day.\<close>

definition one_year_before :: "datetime \<Rightarrow> py_error + datetime" where
  "one_year_before d = dt_datetime (dt_year d - 1) (dt_month d) (dt_day d)"

definition precip :: "dataset \<Rightarrow> py_error + response" where
  "precip ds =
     (let d_latest = sql_max (date_column ds)
      in bind (strptime d_latest) (\<lambda>d_latest.
         bind (one_year_before d_latest) (\<lambda>d_1yr.
           let results = order_by m_date (filter (\<lambda>m. bind_datetime d_1yr < m_date m) ds)
           in Inr (PrcpJson (map (\<lambda>m. (m_date m, m_prcp m)) results)))))"

subsection \<open>\<^verbatim>\<open>/api/v1.0/tobs\<close>\<close>

text \<open>
  The rows of the grouped count: one per station, which the grouping produces in ascending
  order of the station, then sorted by descending count; stations with equal counts
  therefore come out in descending order of the station.
\<close>

definition group_by_station :: "dataset \<Rightarrow> (string \<times> nat) list" where
  "group_by_station ds =
     map (\<lambda>s. (s, length (filter (\<lambda>m. m_station m = s) ds))) (sort (remdups (map m_station ds)))"

definition n_station :: "dataset \<Rightarrow> (string \<times> nat) list" where
  "n_station ds = order_by_desc snd (group_by_station ds)"

text \<open>\<^verbatim>\<open>n_station[0][0]\<close>: IndexError on an empty list.\<close>

definition station_id :: "dataset \<Rightarrow> py_error + string" where
  "station_id ds = (case n_station ds of [] \<Rightarrow> Inl IndexError | r # _ \<Rightarrow> Inr (fst r))"

definition tobs :: "dataset \<Rightarrow> py_error + response" where
  "tobs ds =
     bind (station_id ds) (\<lambda>station_id.
       let d_latest = sql_max (date_column (filter (\<lambda>m. m_station m = station_id) ds))
       in bind (strptime d_latest) (\<lambda>d_latest.
          bind (one_year_before d_latest) (\<lambda>d_1yr.
            let results = order_by m_date
                  (filter (\<lambda>m. m_station m = station_id \<and> bind_datetime d_1yr < m_date m) ds)
            in Inr (TempJson (map (\<lambda>m. (m_station m, m_date m, m_tobs m)) results)))))"

subsection \<open>\<^verbatim>\<open>/api/v1.0/<start>\<close>\<close>

definition tobs_start_try :: "dataset \<Rightarrow> string \<Rightarrow> string option \<Rightarrow> py_error + response" where
  "tobs_start_try ds start d_latest =
     bind (dt_gt (Some start) d_latest) (\<lambda>later.
       if later then Inl DataDateError
       else stats_page (Some start) d_latest (temp_stats ds (Some start) d_latest))"

definition tobs_start :: "dataset \<Rightarrow> string \<Rightarrow> py_error + response" where
  "tobs_start ds start =
     (let d_latest = sql_max (date_column ds)
      in case tobs_start_try ds start d_latest of
           Inl ValueError \<Rightarrow> Inr (Text ''Please enter a valid date format YYYY-mm-dd'')
         | Inl DataDateError \<Rightarrow>
             Inr (Text (''Entered date is later than data available<br>''
                        @ ''Please enter a date earlier than '' @ py_str d_latest))
         | r \<Rightarrow> r)"

subsection \<open>\<^verbatim>\<open>/api/v1.0/<start>/<end>\<close>\<close>

definition tobs_start_end_try ::
    "dataset \<Rightarrow> string \<Rightarrow> string \<Rightarrow> string option \<Rightarrow> string option \<Rightarrow> py_error + response" where
  "tobs_start_end_try ds start0 end0 d_earliest d_latest =
     bind (dt_gt (Some start0) (Some end0)) (\<lambda>later.
       let start1 = (if later then Some end0 else Some start0);
           end1 = (if later then Some start0 else Some end0)
       in bind (bind (dt_gt start1 d_latest) (\<lambda>after.
                  if after then dt_lt end1 d_earliest else Inr False)) (\<lambda>outside.
            if outside then Inl DataDateError
            else bind (dt_lt start1 d_earliest) (\<lambda>early.
                   let start2 = (if early then d_earliest else start1)
                   in bind (dt_gt end1 d_latest) (\<lambda>late.
                        let end2 = (if late then d_latest else end1)
                        in stats_page start2 end2 (temp_stats ds start2 end2)))))"

definition tobs_start_end :: "dataset \<Rightarrow> string \<Rightarrow> string \<Rightarrow> py_error + response" where
  "tobs_start_end ds start0 end0 =
     (let d_earliest = sql_min (date_column ds); d_latest = sql_max (date_column ds)
      in case tobs_start_end_try ds start0 end0 d_earliest d_latest of
           Inl ValueError \<Rightarrow> Inr (Text ''Please enter a valid date format YYYY-mm-dd'')
         | Inl DataDateError \<Rightarrow>
             Inr (Text (''Start and end dates are outside available date range<br>''
                        @ ''Please enter a period between '' @ py_str d_earliest
                        @ '' and '' @ py_str d_latest))
         | r \<Rightarrow> r)"

section \<open>Auxiliary definitions\<close>

text \<open>The calendar date that a stored date string denotes.\<close>

definition date_of :: "string \<Rightarrow> datetime" where
  "date_of s = (case strptime (Some s) of Inr d \<Rightarrow> d | Inl _ \<Rightarrow> (0, 0, 0))"

text \<open>The number of rows of a station.\<close>

definition station_count :: "dataset \<Rightarrow> string \<Rightarrow> nat" where
  "station_count ds s = length (filter (\<lambda>m. m_station m = s) ds)"

text \<open>Whole numbers small enough for their sum to be a double.\<close>

definition whole_readings :: "rat list \<Rightarrow> bool" where
  "whole_readings xs \<longleftrightarrow>
     list_all (\<lambda>x. of_int \<lfloor>x\<rfloor> = x \<and> \<bar>x\<bar> * of_nat (length xs) < 2 ^ 53) xs"

text \<open>
  Small datasets for concrete requests: one that spans 2010-01-01 to 2017-08-23 as the
  Hawaii data does, one whose latest measurement is on a leap day, one with three readings
  of 60.2 degrees (the double nearest to 60.2 is 4236198399495373 / 2 ^ 46), and one with
  two stations of one row each.
\<close>

definition hawaii_sample :: dataset where
  "hawaii_sample =
     [\<lparr>m_station = ''USC00519397'', m_date = ''2010-01-01'', m_prcp = Some (2 / 25), m_tobs = Some 65\<rparr>,
      \<lparr>m_station = ''USC00519281'', m_date = ''2016-08-23'', m_prcp = Some (177 / 100), m_tobs = Some 77\<rparr>,
      \<lparr>m_station = ''USC00519281'', m_date = ''2016-08-24'', m_prcp = None, m_tobs = Some 77\<rparr>,
      \<lparr>m_station = ''USC00519281'', m_date = ''2017-01-01'', m_prcp = Some (3 / 100), m_tobs = Some 72\<rparr>,
      \<lparr>m_station = ''USC00519397'', m_date = ''2017-08-23'', m_prcp = Some 0, m_tobs = Some 81\<rparr>]"

definition leap_sample :: dataset where
  "leap_sample =
     [\<lparr>m_station = ''USC00519281'', m_date = ''2016-02-28'', m_prcp = Some 0, m_tobs = Some 70\<rparr>,
      \<lparr>m_station = ''USC00519281'', m_date = ''2016-02-29'', m_prcp = None, m_tobs = Some 71\<rparr>]"

definition tenths_sample :: dataset where
  "tenths_sample =
     [\<lparr>m_station = ''USC00519281'', m_date = ''2017-08-01'', m_prcp = Some 0,
       m_tobs = Some (4236198399495373 / 70368744177664)\<rparr>,
      \<lparr>m_station = ''USC00519281'', m_date = ''2017-08-02'', m_prcp = Some 0,
       m_tobs = Some (4236198399495373 / 70368744177664)\<rparr>,
      \<lparr>m_station = ''USC00519281'', m_date = ''2017-08-03'', m_prcp = Some 0,
       m_tobs = Some (4236198399495373 / 70368744177664)\<rparr>]"

definition tied_sample :: dataset where
  "tied_sample =
     [\<lparr>m_station = ''USC00519397'', m_date = ''2017-08-01'', m_prcp = Some 0, m_tobs = Some 80\<rparr>,
      \<lparr>m_station = ''USC00519281'', m_date = ''2017-08-01'', m_prcp = Some 0, m_tobs = Some 78\<rparr>]"

section \<open>Doubles\<close>

declare bit_length.simps [simp del]

lemma bit_length_0 [simp]: "bit_length 0 = 0"
  by (subst bit_length.simps) simp

lemma bit_length_1 [simp]: "bit_length 1 = Suc 0"
  by (subst bit_length.simps) simp

lemma bit_length_pos: "0 < n \<Longrightarrow> 0 < bit_length n"
  by (subst bit_length.simps) simp

lemma bit_length_bounds:
  assumes "0 < n"
  shows "2 ^ (bit_length n - 1) \<le> n \<and> n < 2 ^ bit_length n"
  using assms
proof (induction n rule: bit_length.induct)
  case (1 n)
  show ?case
  proof (cases "n div 2 = 0")
    case True
    with "1.prems" have "n = 1" by presburger
    then show ?thesis by simp
  next
    case False
    with "1.prems" have pos: "0 < n div 2" by presburger
    from "1.IH" [OF _ pos] "1.prems"
    have ih: "2 ^ (bit_length (n div 2) - 1) \<le> n div 2" "n div 2 < 2 ^ bit_length (n div 2)"
      by simp_all
    have bl: "bit_length n = Suc (bit_length (n div 2))"
      using "1.prems" by (subst bit_length.simps) simp
    have k: "0 < bit_length (n div 2)"
      using pos by (rule bit_length_pos)
    then have "(2::int) ^ bit_length (n div 2) = 2 * 2 ^ (bit_length (n div 2) - 1)"
      by (cases "bit_length (n div 2)") simp_all
    with ih have "2 ^ bit_length (n div 2) \<le> n" by linarith
    moreover from ih(2) have "n < 2 * 2 ^ bit_length (n div 2)" by linarith
    ultimately show ?thesis by (simp add: bl)
  qed
qed

lemma ilog2_bounds:
  assumes "0 < x"
  shows "2 powi ilog2 x \<le> x \<and> x < 2 powi (ilog2 x + 1)"
proof (cases "1 \<le> x")
  case True
  define n where "n = \<lfloor>x\<rfloor>"
  define k where "k = bit_length n"
  from True have fl: "1 \<le> \<lfloor>x\<rfloor>" by simp
  have n: "0 < n" "rat_of_int n \<le> x" "x < rat_of_int n + 1"
    using fl floor_correct [of x] by (simp_all add: n_def)
  from bit_length_bounds [OF n(1)] have b: "2 ^ (k - 1) \<le> n" "n < 2 ^ k"
    by (simp_all add: k_def)
  from bit_length_pos [OF n(1)] have k: "0 < k" by (simp add: k_def)
  have il: "ilog2 x = int (k - 1)"
    using True k by (simp add: ilog2_def n_def k_def)
  have il1: "ilog2 x + 1 = int k"
    using il k by simp
  have "rat_of_int (2 ^ (k - 1)) \<le> rat_of_int n" using b(1) by (simp only: of_int_le_iff)
  then have "(2::rat) ^ (k - 1) \<le> rat_of_int n" by (simp only: of_int_power of_int_numeral)
  with n(2) have lo: "2 ^ (k - 1) \<le> x" by (rule order_trans [rotated])
  have "n + 1 \<le> 2 ^ k" using b(2) by simp
  then have "rat_of_int (n + 1) \<le> rat_of_int (2 ^ k)" by (simp only: of_int_le_iff)
  then have "rat_of_int n + 1 \<le> 2 ^ k"
    by (simp only: of_int_power of_int_numeral of_int_add of_int_1)
  with n(3) have hi: "x < 2 ^ k" by (rule less_le_trans)
  show ?thesis unfolding il1 unfolding il using lo hi by simp
next
  case False
  define y where "y = 1 / x"
  define n where "n = \<lfloor>y\<rfloor>"
  define k where "k = bit_length n"
  from False assms have y1: "1 < y" by (simp add: y_def)
  then have fl: "1 \<le> \<lfloor>y\<rfloor>" by simp
  have n: "0 < n" "rat_of_int n \<le> y" "y < rat_of_int n + 1"
    using fl floor_correct [of y] by (simp_all add: n_def)
  from bit_length_bounds [OF n(1)] have b: "2 ^ (k - 1) \<le> n" "n < 2 ^ k"
    by (simp_all add: k_def)
  from bit_length_pos [OF n(1)] have k: "0 < k" by (simp add: k_def)
  have "rat_of_int (2 ^ (k - 1)) \<le> rat_of_int n" using b(1) by (simp only: of_int_le_iff)
  then have "(2::rat) ^ (k - 1) \<le> rat_of_int n" by (simp only: of_int_power of_int_numeral)
  with n(2) have lo: "2 ^ (k - 1) \<le> y" by (rule order_trans [rotated])
  have "n + 1 \<le> 2 ^ k" using b(2) by simp
  then have "rat_of_int (n + 1) \<le> rat_of_int (2 ^ k)" by (simp only: of_int_le_iff)
  then have "rat_of_int n + 1 \<le> 2 ^ k"
    by (simp only: of_int_power of_int_numeral of_int_add of_int_1)
  with n(3) have hi: "y < 2 ^ k" by (rule less_le_trans)
  have xy: "x = 1 / y" by (simp add: y_def)
  have ypos: "0 < y" using y1 by simp
  have x_le: "x \<le> 1 / 2 ^ (k - 1)"
    unfolding xy using lo ypos by (intro divide_left_mono) simp_all
  have x_gt: "1 / 2 ^ k < x"
    unfolding xy using hi ypos by (intro divide_strict_left_mono) simp_all
  have nk: "nat (int k - 1) = k - 1" by simp
  have "ilog2 x = (if x * 2 ^ nat (int k - 1) = 1 then 1 - int k else - int k)"
    using False by (simp only: ilog2_def k_def n_def y_def Let_def if_False)
  then have il0: "ilog2 x = (if x * 2 ^ (k - 1) = 1 then 1 - int k else - int k)"
    by (simp only: nk)
  have p1: "(2::rat) powi (1 - int k) = 1 / 2 ^ (k - 1)"
  proof -
    have e: "1 - int k = - int (k - 1)" using k by linarith
    have "(2::rat) powi (- int (k - 1)) = 1 / 2 ^ (k - 1)"
      by (simp only: power_int_minus_divide power_int_of_nat)
    then show ?thesis by (simp only: e)
  qed
  have p2: "(2::rat) powi (- int k) = 1 / 2 ^ k"
    by (simp only: power_int_minus_divide power_int_of_nat)
  have p3: "(2::rat) powi (2 - int k) = 2 * (1 / 2 ^ (k - 1))"
  proof -
    have "(2::rat) powi ((1 - int k) + 1) = 2 powi (1 - int k) * 2"
      by (rule power_int_add_1) simp
    moreover have "(1 - int k) + 1 = 2 - int k" by linarith
    ultimately have "(2::rat) powi (2 - int k) = 2 powi (1 - int k) * 2" by (simp only:)
    then show ?thesis by (simp only: p1 mult.commute)
  qed
  show ?thesis
  proof (cases "x * 2 ^ (k - 1) = 1")
    case True
    then have x: "x = 1 / 2 ^ (k - 1)" by (simp add: field_simps)
    have il: "ilog2 x = 1 - int k"
      using True by (simp only: il0 if_P if_True)
    have il1: "ilog2 x + 1 = 2 - int k" using il by linarith
    have "(0::rat) < 1 / 2 ^ (k - 1)" by simp
    then have "1 / 2 ^ (k - 1) < 2 * (1 / 2 ^ (k - 1) :: rat)" by linarith
    moreover have "2 powi ilog2 x = (1 / 2 ^ (k - 1) :: rat)" by (simp only: il p1)
    moreover have "2 powi (ilog2 x + 1) = (2 * (1 / 2 ^ (k - 1)) :: rat)" by (simp only: il1 p3)
    ultimately show ?thesis using x by simp
  next
    case neq: False
    then have "x \<noteq> 1 / 2 ^ (k - 1)" by (auto simp: field_simps)
    with x_le have lt: "x < 1 / 2 ^ (k - 1)" by simp
    have il: "ilog2 x = - int k"
      using neq by (simp only: il0 if_not_P if_False)
    have il1: "ilog2 x + 1 = 1 - int k" using il by linarith
    have "2 powi ilog2 x = (1 / 2 ^ k :: rat)" by (simp only: il p2)
    moreover have "2 powi (ilog2 x + 1) = (1 / 2 ^ (k - 1) :: rat)" by (simp only: il1 p1)
    ultimately show ?thesis using lt x_gt by simp
  qed
qed

lemma ilog2_unique:
  assumes "0 < x" and "2 powi L \<le> x" and "x < 2 powi (L + 1)"
  shows "ilog2 x = L"
proof -
  from ilog2_bounds [OF assms(1)]
  have b: "2 powi ilog2 x \<le> x" "x < 2 powi (ilog2 x + 1)" by simp_all
  have "\<not> L + 1 \<le> ilog2 x"
  proof
    assume "L + 1 \<le> ilog2 x"
    then have "(2::rat) powi (L + 1) \<le> 2 powi ilog2 x" by (intro power_int_increasing) simp_all
    with b(1) assms(3) show False by simp
  qed
  moreover have "\<not> ilog2 x + 1 \<le> L"
  proof
    assume "ilog2 x + 1 \<le> L"
    then have "(2::rat) powi (ilog2 x + 1) \<le> 2 powi L" by (intro power_int_increasing) simp_all
    with b(2) assms(2) show False by simp
  qed
  ultimately show ?thesis by simp
qed

lemma round_half_even_ge:
  assumes "of_int z \<le> y"
  shows "z \<le> round_half_even y"
proof -
  from assms have "z \<le> \<lfloor>y\<rfloor>" by (simp add: le_floor_iff)
  then show ?thesis by (auto simp: round_half_even_def Let_def)
qed

lemma round_half_even_le:
  assumes "y \<le> of_int z"
  shows "round_half_even y \<le> z"
proof (cases "y = of_int \<lfloor>y\<rfloor>")
  case True
  then have "y - of_int \<lfloor>y\<rfloor> = 0" by simp
  then have "round_half_even y = \<lfloor>y\<rfloor>" by (simp add: round_half_even_def Let_def)
  moreover from assms have "\<lfloor>y\<rfloor> \<le> z" by (simp add: floor_le_iff)
  ultimately show ?thesis by simp
next
  case False
  then have "of_int \<lfloor>y\<rfloor> < y" using of_int_floor_le [of y] by linarith
  with assms have "of_int \<lfloor>y\<rfloor> < (of_int z :: rat)" by simp
  then have "\<lfloor>y\<rfloor> < z" by simp
  then have "\<lfloor>y\<rfloor> + 1 \<le> z" by simp
  then show ?thesis by (auto simp: round_half_even_def Let_def)
qed

lemma double_0 [simp]: "double 0 = 0"
  by (simp add: double_def)

lemma double_minus: "double (- x) = - double x"
  by (simp add: double_def Let_def)

lemma double_pos:
  assumes "0 < x" and "2 powi L \<le> x" and "x < 2 powi (L + 1)"
  shows "double x = of_int (round_half_even (x / 2 powi (L - 52))) * 2 powi (L - 52)"
  using assms(1) ilog2_unique [OF assms] by (simp add: double_def Let_def)

lemma double_int_bounds_pos:
  assumes "0 < q" and "q < 2 ^ 53"
  shows "of_int c \<le> q \<Longrightarrow> of_int c \<le> double q"
    and "q \<le> of_int c \<Longrightarrow> double q \<le> of_int c"
proof -
  define L where "L = ilog2 q"
  from ilog2_bounds [OF assms(1)] have b: "2 powi L \<le> q" "q < 2 powi (L + 1)"
    by (simp_all add: L_def)
  have "L < 53"
  proof (rule ccontr)
    assume "\<not> L < 53"
    then have "(2::rat) powi 53 \<le> 2 powi L" by (intro power_int_increasing) simp_all
    with b(1) assms(2) show False by simp
  qed
  define n where "n = nat (52 - L)"
  have e: "L - 52 = - int n" using \<open>L < 53\<close> by (simp add: n_def)
  have p: "(2::rat) powi (L - 52) = 1 / 2 ^ n"
    by (simp only: e power_int_minus_divide power_int_of_nat)
  define m where "m = round_half_even (q * 2 ^ n)"
  have d: "double q = of_int m / 2 ^ n"
    using double_pos [OF assms(1) b] by (simp add: p m_def)
  have s: "(of_int c :: rat) * 2 ^ n = of_int (c * 2 ^ n)" by simp
  show "of_int c \<le> double q" if "of_int c \<le> q"
  proof -
    from that have "of_int c * 2 ^ n \<le> q * 2 ^ n" by (intro mult_right_mono) simp_all
    then have "of_int (c * 2 ^ n) \<le> q * 2 ^ n" by (simp only: s)
    then have "c * 2 ^ n \<le> m" unfolding m_def by (rule round_half_even_ge)
    then have "(of_int (c * 2 ^ n) :: rat) \<le> of_int m" by (simp only: of_int_le_iff)
    then have "(of_int c :: rat) * 2 ^ n \<le> of_int m" by (simp only: s)
    then show ?thesis by (simp add: d pos_le_divide_eq)
  qed
  show "double q \<le> of_int c" if "q \<le> of_int c"
  proof -
    from that have "q * 2 ^ n \<le> of_int c * 2 ^ n" by (intro mult_right_mono) simp_all
    then have "q * 2 ^ n \<le> of_int (c * 2 ^ n)" by (simp only: s)
    then have "m \<le> c * 2 ^ n" unfolding m_def by (rule round_half_even_le)
    then have "(of_int m :: rat) \<le> of_int (c * 2 ^ n)" by (simp only: of_int_le_iff)
    then have "(of_int m :: rat) \<le> of_int c * 2 ^ n" by (simp only: s)
    then show ?thesis by (simp add: d pos_divide_le_eq)
  qed
qed

lemma double_int_bounds:
  assumes "\<bar>q\<bar> < 2 ^ 53"
  shows "of_int c \<le> q \<Longrightarrow> of_int c \<le> double q"
    and "q \<le> of_int c \<Longrightarrow> double q \<le> of_int c"
proof -
  consider (neg) "q < 0" | (zero) "q = 0" | (pos) "0 < q" by linarith
  then have "(of_int c \<le> q \<longrightarrow> of_int c \<le> double q) \<and> (q \<le> of_int c \<longrightarrow> double q \<le> of_int c)"
  proof cases
    case neg
    then have p: "0 < - q" "- q < 2 ^ 53" using assms by simp_all
    have d: "double q = - double (- q)" using double_minus [of "- q"] by simp
    show ?thesis
    proof (intro conjI impI)
      assume "of_int c \<le> q"
      then have "- q \<le> of_int (- c)" by simp
      from double_int_bounds_pos(2) [OF p this] show "of_int c \<le> double q" by (simp add: d)
    next
      assume "q \<le> of_int c"
      then have "of_int (- c) \<le> - q" by simp
      from double_int_bounds_pos(1) [OF p this] show "double q \<le> of_int c" by (simp add: d)
    qed
  next
    case zero
    then show ?thesis by simp
  next
    case pos
    with assms have p: "0 < q" "q < 2 ^ 53" by simp_all
    show ?thesis using double_int_bounds_pos [OF p] by blast
  qed
  then show "of_int c \<le> q \<Longrightarrow> of_int c \<le> double q"
    and "q \<le> of_int c \<Longrightarrow> double q \<le> of_int c" by blast+
qed

lemma double_of_int:
  assumes "\<bar>k\<bar> < 2 ^ 53"
  shows "double (of_int k) = of_int k"
proof -
  have a: "\<bar>of_int k :: rat\<bar> < 2 ^ 53"
    using assms by (metis of_int_abs of_int_less_iff of_int_numeral of_int_power)
  from double_int_bounds [OF a, of k] show ?thesis by simp
qed

lemma kbn_step_int:
  assumes "\<bar>a\<bar> < 2 ^ 53" and "\<bar>r\<bar> < 2 ^ 53" and "\<bar>a + r\<bar> < 2 ^ 53"
  shows "kbn_step (of_int a, 0) (of_int r) = (of_int (a + r), 0)"
proof -
  have t: "double (of_int a + of_int r) = of_int (a + r)"
    using double_of_int [OF assms(3)] by simp
  have "double (of_int a - of_int (a + r)) = double (of_int (- r))" by simp
  also have "\<dots> = of_int (- r)" using assms(2) by (intro double_of_int) simp
  finally have s1: "double (of_int a - of_int (a + r)) + of_int r = 0" by simp
  have "double (of_int r - of_int (a + r)) = double (of_int (- a))" by simp
  also have "\<dots> = of_int (- a)" using assms(1) by (intro double_of_int) simp
  finally have s2: "double (of_int r - of_int (a + r)) + of_int a = 0" by simp
  show ?thesis
    unfolding kbn_step_def Let_def prod.case t s1 s2 by simp
qed

lemma foldl_kbn_int:
  assumes "\<forall>x\<in>set ks. \<bar>x\<bar> \<le> B" and "\<bar>a\<bar> + int (length ks) * B < 2 ^ 53"
  shows "foldl kbn_step (of_int a, 0) (map of_int ks) = (of_int (a + sum_list ks), 0)"
  using assms
proof (induction ks arbitrary: a)
  case Nil
  then show ?case by simp
next
  case (Cons k ks)
  from Cons.prems(1) have k: "\<bar>k\<bar> \<le> B" and rest: "\<forall>x\<in>set ks. \<bar>x\<bar> \<le> B" by simp_all
  from k have B: "0 \<le> B" by linarith
  then have nB: "0 \<le> int (length ks) * B" by simp
  from Cons.prems(2) have tot: "\<bar>a\<bar> + (int (length ks) * B + B) < 2 ^ 53"
    by (simp add: algebra_simps)
  from tot nB B have a: "\<bar>a\<bar> < 2 ^ 53" by linarith
  from tot nB k have k53: "\<bar>k\<bar> < 2 ^ 53" by linarith
  from tot nB k have ak: "\<bar>a + k\<bar> < 2 ^ 53" by linarith
  from tot k have next_bound: "\<bar>a + k\<bar> + int (length ks) * B < 2 ^ 53" by linarith
  have "foldl kbn_step (of_int a, 0) (map of_int (k # ks)) =
      foldl kbn_step (of_int (a + k), 0) (map of_int ks)"
    by (simp add: kbn_step_int [OF a k53 ak])
  also have "\<dots> = (of_int (a + k + sum_list ks), 0)"
    by (rule Cons.IH [OF rest next_bound])
  finally show ?case by (simp add: add.assoc)
qed

lemma bit_length_numeral: "bit_length (numeral n) = Suc (bit_length (numeral n div 2))"
  by (subst bit_length.simps) simp

lemma floor_numeral_div_rat:
  "\<lfloor>numeral a / numeral b :: rat\<rfloor> = numeral a div numeral b"
  using floor_divide_of_int_eq [of "numeral a" "numeral b", where ?'a = rat] by simp

lemma floor_one_div_rat: "\<lfloor>1 / numeral b :: rat\<rfloor> = 1 div numeral b"
  using floor_divide_of_int_eq [of 1 "numeral b", where ?'a = rat] by simp

lemmas double_eval =
  double_def ilog2_def round_half_even_def Let_def bit_length_numeral
  floor_numeral_div_rat floor_one_div_rat

section \<open>Basic facts\<close>

declare strptime.simps [simp del]

lemma bind_simps [simp]:
  "bind (Inl e) f = Inl e"
  "bind (Inr v) f = f v"
  by (simp_all add: bind_def)

lemma stats_page_cases:
  "stats_page a b st = Inl TypeError \<or> (\<exists>lo hi av. stats_page a b st = Inr (Stats (py_str a) (py_str b) lo hi av))"
  by (cases st) (simp add: stats_page_def split: option.splits)

lemma reraise_stats_page:
  "(case stats_page a b st of
      Inl ValueError \<Rightarrow> x
    | Inl DataDateError \<Rightarrow> y
    | r \<Rightarrow> r) = stats_page a b st"
  using stats_page_cases [of a b st] by auto

lemma strptime_valid:
  assumes "strptime (Some s) = Inr (y, m, d)"
  shows "check_date_fields y m d"
  using assms
  by (auto simp: strptime.simps dt_datetime_def split: option.splits prod.splits if_splits)

lemmas strptime_eval =
  strptime.simps match_Y_def match_dash_def match_m_def match_d_def is_digit_def in_range_def
  digit_val_def dt_datetime_def check_date_fields_def days_in_month_def is_leap_def

lemma strptime_2020_01_01: "strptime (Some ''2020-01-01'') = Inr (2020, 1, 1)" by (simp add: strptime_eval)
lemma strptime_2021_01_01: "strptime (Some ''2021-01-01'') = Inr (2021, 1, 1)" by (simp add: strptime_eval)
lemma strptime_2017_08_23: "strptime (Some ''2017-08-23'') = Inr (2017, 8, 23)" by (simp add: strptime_eval)
lemma strptime_2010_01_01: "strptime (Some ''2010-01-01'') = Inr (2010, 1, 1)" by (simp add: strptime_eval)
lemma strptime_2017_8_23: "strptime (Some ''2017-8-23'') = Inr (2017, 8, 23)" by (simp add: strptime_eval)
lemma strptime_2018_01_01: "strptime (Some ''2018-01-01'') = Inr (2018, 1, 1)" by (simp add: strptime_eval)
lemma strptime_2017_01_01: "strptime (Some ''2017-01-01'') = Inr (2017, 1, 1)" by (simp add: strptime_eval)
lemma strptime_2017_12_31: "strptime (Some ''2017-12-31'') = Inr (2017, 12, 31)" by (simp add: strptime_eval)
lemma strptime_2015_06_01: "strptime (Some ''2015-06-01'') = Inr (2015, 6, 1)" by (simp add: strptime_eval)
lemma strptime_2015_06_30: "strptime (Some ''2015-06-30'') = Inr (2015, 6, 30)" by (simp add: strptime_eval)
lemma strptime_2016_02_29: "strptime (Some ''2016-02-29'') = Inr (2016, 2, 29)" by (simp add: strptime_eval)

lemma hawaii_earliest: "sql_min (date_column hawaii_sample) = Some ''2010-01-01''"
  by (simp add: hawaii_sample_def date_column_def sql_min_def)

lemma hawaii_latest: "sql_max (date_column hawaii_sample) = Some ''2017-08-23''"
  by (simp add: hawaii_sample_def date_column_def sql_max_def)

lemma leap_latest: "sql_max (date_column leap_sample) = Some ''2016-02-29''"
  by (simp add: leap_sample_def date_column_def sql_max_def)

lemma leap_station: "station_id leap_sample = Inr ''USC00519281''"
  by (simp add: leap_sample_def station_id_def n_station_def group_by_station_def
      order_by_desc_def)

lemma leap_station_latest:
  "sql_max (date_column (filter (\<lambda>m. m_station m = ''USC00519281'') leap_sample)) = Some ''2016-02-29''"
  by (simp add: leap_sample_def date_column_def sql_max_def)

lemmas temp_stats_eval =
  temp_stats_def sql_min_def sql_max_def sql_avg_def double_mean_def kbn_step_def double_eval

lemma hawaii_stats_after:
  "temp_stats hawaii_sample (Some ''2020-01-01'') (Some ''2017-08-23'') = (None, None, None)"
  by (simp add: hawaii_sample_def temp_stats_eval)

lemma hawaii_stats_unpadded:
  "temp_stats hawaii_sample (Some ''2017-8-23'') (Some ''2017-08-23'') = (None, None, None)"
  by (simp add: hawaii_sample_def temp_stats_eval)

lemma hawaii_stats_gap:
  "temp_stats hawaii_sample (Some ''2015-06-01'') (Some ''2015-06-30'') = (None, None, None)"
  by (simp add: hawaii_sample_def temp_stats_eval)

lemma hawaii_stats_2017:
  "temp_stats hawaii_sample (Some ''2017-01-01'') (Some ''2017-08-23'') = (Some 72, Some (153 / 2), Some 81)"
  by (simp add: hawaii_sample_def temp_stats_eval)

lemmas handler_eval =
  tobs_start_def tobs_start_try_def tobs_start_end_def tobs_start_end_try_def
  dt_gt_def dt_lt_def stats_page_def Let_def

section \<open>The date routes\<close>

text \<open>
  C1: a request whose two dates both lie after the latest measurement is expected to be
  answered with the message of DataDateError.  The handler's check asks for a start after
  the latest date and an end before the earliest date, so it lets such a request pass; the
  end is clamped to the latest date, the query selects no row, and rounding the missing
  average raises TypeError.  Here the request is \<^verbatim>\<open>/api/v1.0/2020-01-01/2021-01-01\<close> on
  data that ends on 2017-08-23.
\<close>

theorem tobs_start_end_after_latest_raises:
  "tobs_start_end hawaii_sample ''2020-01-01'' ''2021-01-01'' = Inl TypeError"
  by (simp add: handler_eval strptime_2020_01_01 strptime_2021_01_01 strptime_2017_08_23
      strptime_2010_01_01 hawaii_earliest hawaii_latest hawaii_stats_after)

text \<open>
  C2: a handler is expected to answer every request.  When the range selects no temperature
  the average is \<^verbatim>\<open>None\<close> and \<^verbatim>\<open>round(TAvg, 1)\<close> raises TypeError, which neither
  \<^verbatim>\<open>except\<close> clause catches: in the one-date route for the latest date written without
  the zero of the month, in the two-date route for a month without measurements.
\<close>

theorem handlers_raise_on_empty_range:
  "tobs_start hawaii_sample ''2017-8-23'' = Inl TypeError
   \<and> tobs_start_end hawaii_sample ''2015-06-01'' ''2015-06-30'' = Inl TypeError"
  by (simp add: handler_eval strptime_2017_8_23 strptime_2015_06_01 strptime_2015_06_30
      strptime_2017_08_23 strptime_2010_01_01 hawaii_earliest hawaii_latest
      hawaii_stats_unpadded hawaii_stats_gap)

text \<open>
  C3: in the one-date route, a start that parses and is later than the latest measurement
  date is answered with the message that names that date; any other start that parses gets
  the page made from \<open>temp_stats\<close> between the start and the latest date.
\<close>

theorem tobs_start_spec:
  assumes "strptime (Some start) = Inr s"
    and "sql_max (date_column ds) = Some latest"
    and "strptime (Some latest) = Inr l"
  shows "tobs_start ds start =
     (if l < s
      then Inr (Text (''Entered date is later than data available<br>''
                      @ ''Please enter a date earlier than '' @ latest))
      else stats_page (Some start) (Some latest) (temp_stats ds (Some start) (Some latest)))"
  using assms by (simp add: tobs_start_def tobs_start_try_def dt_gt_def reraise_stats_page Let_def)

theorem tobs_start_spec_witness:
  "strptime (Some ''2018-01-01'') = Inr (2018, 1, 1)
   \<and> sql_max (date_column hawaii_sample) = Some ''2017-08-23''
   \<and> strptime (Some ''2017-08-23'') = Inr (2017, 8, 23)
   \<and> tobs_start hawaii_sample ''2018-01-01'' =
       Inr (Text ''Entered date is later than data available<br>Please enter a date earlier than 2017-08-23'')"
  using tobs_start_spec [OF strptime_2018_01_01 hawaii_latest strptime_2017_08_23]
  by (simp add: strptime_2018_01_01 hawaii_latest strptime_2017_08_23)

text \<open>
  C4: in the two-date route, for two dates that parse, the start (after the swap) is
  replaced by the earliest measurement date when it is before it, the end by the latest
  measurement date when it is after it, and the page is made from \<open>temp_stats\<close> between the
  two resulting dates.
\<close>

theorem tobs_start_end_clamp:
  assumes "strptime (Some start0) = Inr s"
    and "strptime (Some end0) = Inr e"
    and "sql_min (date_column ds) = Some earliest"
    and "sql_max (date_column ds) = Some latest"
    and "strptime (Some earliest) = Inr lo"
    and "strptime (Some latest) = Inr hi"
    and "lo \<le> hi"
  shows "tobs_start_end ds start0 end0 =
     (let start1 = (if e < s then end0 else start0);
          end1 = (if e < s then start0 else end0);
          start2 = (if min s e < lo then earliest else start1);
          end2 = (if hi < max s e then latest else end1)
      in stats_page (Some start2) (Some end2) (temp_stats ds (Some start2) (Some end2)))"
proof (cases "e < s")
  case True
  then have "\<not> (hi < e \<and> s < lo)" "min s e = e" "max s e = s"
    using assms(7) by auto
  with True assms show ?thesis
    by (simp add: tobs_start_end_def tobs_start_end_try_def dt_gt_def dt_lt_def
        reraise_stats_page Let_def)
next
  case False
  then have "\<not> (hi < s \<and> e < lo)" "min s e = s" "max s e = e"
    using assms(7) by auto
  with False assms show ?thesis
    by (simp add: tobs_start_end_def tobs_start_end_try_def dt_gt_def dt_lt_def
        reraise_stats_page Let_def)
qed

theorem tobs_start_end_clamp_witness:
  "strptime (Some ''2017-01-01'') = Inr (2017, 1, 1)
   \<and> strptime (Some ''2017-12-31'') = Inr (2017, 12, 31)
   \<and> sql_min (date_column hawaii_sample) = Some ''2010-01-01''
   \<and> sql_max (date_column hawaii_sample) = Some ''2017-08-23''
   \<and> strptime (Some ''2010-01-01'') = Inr (2010, 1, 1)
   \<and> strptime (Some ''2017-08-23'') = Inr (2017, 8, 23)
   \<and> ((2010, 1, 1) :: datetime) \<le> (2017, 8, 23)
   \<and> tobs_start_end hawaii_sample ''2017-01-01'' ''2017-12-31'' =
       stats_page (Some ''2017-01-01'') (Some ''2017-08-23'')
         (temp_stats hawaii_sample (Some ''2017-01-01'') (Some ''2017-08-23''))
   \<and> tobs_start_end hawaii_sample ''2017-01-01'' ''2017-12-31'' =
       Inr (Stats ''2017-01-01'' ''2017-08-23'' (Some 72) (Some 81) (153 / 2))"
proof -
  have le: "((2010, 1, 1) :: datetime) \<le> (2017, 8, 23)" by simp
  have r: "py_round1 (153 / 2) = 153 / 2" by (simp add: py_round1_def double_eval)
  show ?thesis
    using tobs_start_end_clamp [OF strptime_2017_01_01 strptime_2017_12_31 hawaii_earliest
        hawaii_latest strptime_2010_01_01 strptime_2017_08_23 le]
    by (simp add: strptime_2017_01_01 strptime_2017_12_31 hawaii_earliest
        hawaii_latest strptime_2010_01_01 strptime_2017_08_23 hawaii_stats_2017 stats_page_def r)
qed

text \<open>
  C5: in the two-date route, when both dates parse and the start is later than the end, the
  answer is the answer to the request with the two dates exchanged.
\<close>

theorem tobs_start_end_swap:
  assumes "strptime (Some start0) = Inr s"
    and "strptime (Some end0) = Inr e"
    and "e < s"
  shows "tobs_start_end ds start0 end0 = tobs_start_end ds end0 start0"
proof -
  have "\<not> s < e" using assms(3) by simp
  then show ?thesis
    using assms by (simp add: tobs_start_end_def tobs_start_end_try_def dt_gt_def dt_lt_def Let_def)
qed

theorem tobs_start_end_swap_witness:
  "strptime (Some ''2017-12-31'') = Inr (2017, 12, 31)
   \<and> strptime (Some ''2017-01-01'') = Inr (2017, 1, 1)
   \<and> ((2017, 1, 1) :: datetime) < (2017, 12, 31)
   \<and> tobs_start_end hawaii_sample ''2017-12-31'' ''2017-01-01'' =
       tobs_start_end hawaii_sample ''2017-01-01'' ''2017-12-31''"
proof -
  have lt: "((2017, 1, 1) :: datetime) < (2017, 12, 31)" by simp
  show ?thesis
    using tobs_start_end_swap [OF strptime_2017_12_31 strptime_2017_01_01 lt, of hawaii_sample]
    by (simp add: strptime_2017_12_31 strptime_2017_01_01)
qed

lemma strptime_cases:
  "strptime (Some s) = Inl ValueError \<or> (\<exists>d. strptime (Some s) = Inr d)"
  by (auto simp: strptime.simps dt_datetime_def split: option.splits prod.splits if_splits)

lemma stats_page_shape:
  "stats_page a b st = Inl ValueError \<or> stats_page a b st = Inl TypeError
   \<or> (\<exists>a' b' lo hi av. stats_page a b st = Inr (Stats a' b' lo hi av))"
  using stats_page_cases [of a b st] by auto

lemma tobs_start_end_try_cases:
  assumes "strptime d_earliest = Inr lo"
    and "strptime d_latest = Inr hi"
    and "lo \<le> hi"
  shows "tobs_start_end_try ds start0 end0 d_earliest d_latest = Inl ValueError
     \<or> tobs_start_end_try ds start0 end0 d_earliest d_latest = Inl TypeError
     \<or> (\<exists>a b lo hi av. tobs_start_end_try ds start0 end0 d_earliest d_latest = Inr (Stats a b lo hi av))"
proof -
  consider (bad1) "strptime (Some start0) = Inl ValueError"
    | (bad2) s where "strptime (Some start0) = Inr s" "strptime (Some end0) = Inl ValueError"
    | (ok) s e where "strptime (Some start0) = Inr s" "strptime (Some end0) = Inr e"
    using strptime_cases [of start0] strptime_cases [of end0] by auto
  then show ?thesis
  proof cases
    case bad1
    then show ?thesis by (simp add: tobs_start_end_try_def dt_gt_def)
  next
    case bad2
    then show ?thesis by (simp add: tobs_start_end_try_def dt_gt_def)
  next
    case ok
    show ?thesis
    proof (cases "e < s")
      case True
      then have "\<not> (hi < e \<and> s < lo)" using assms(3) by auto
      with True ok assms show ?thesis
        by (simp add: tobs_start_end_try_def dt_gt_def dt_lt_def Let_def stats_page_shape)
    next
      case False
      then have "\<not> (hi < s \<and> e < lo)" using assms(3) by auto
      with False ok assms show ?thesis
        by (simp add: tobs_start_end_try_def dt_gt_def dt_lt_def Let_def stats_page_shape)
    qed
  qed
qed

text \<open>
  C9: when the earliest measurement date is not later than the latest one, the two-date
  route never raises DataDateError and never returns its message, whatever the two strings
  of the request are.
\<close>

theorem data_date_error_unreachable:
  assumes "strptime (sql_min (date_column ds)) = Inr lo"
    and "strptime (sql_max (date_column ds)) = Inr hi"
    and "lo \<le> hi"
  shows "tobs_start_end_try ds start0 end0 (sql_min (date_column ds)) (sql_max (date_column ds))
           \<noteq> Inl DataDateError
     \<and> tobs_start_end ds start0 end0 \<noteq>
         Inr (Text (''Start and end dates are outside available date range<br>''
                    @ ''Please enter a period between '' @ py_str (sql_min (date_column ds))
                    @ '' and '' @ py_str (sql_max (date_column ds))))"
  using tobs_start_end_try_cases [OF assms, of ds start0 end0]
  by (auto simp add: tobs_start_end_def Let_def)

theorem data_date_error_unreachable_witness:
  "strptime (sql_min (date_column hawaii_sample)) = Inr (2010, 1, 1)
   \<and> strptime (sql_max (date_column hawaii_sample)) = Inr (2017, 8, 23)
   \<and> ((2010, 1, 1) :: datetime) \<le> (2017, 8, 23)
   \<and> tobs_start_end_try hawaii_sample ''2020-01-01'' ''2021-01-01''
        (sql_min (date_column hawaii_sample)) (sql_max (date_column hawaii_sample))
       \<noteq> Inl DataDateError
   \<and> tobs_start_end hawaii_sample ''2020-01-01'' ''2021-01-01'' \<noteq>
       Inr (Text ''Start and end dates are outside available date range<br>Please enter a period between 2010-01-01 and 2017-08-23'')"
proof -
  have lo: "strptime (sql_min (date_column hawaii_sample)) = Inr (2010, 1, 1)"
    by (simp add: hawaii_earliest strptime_2010_01_01)
  have hi: "strptime (sql_max (date_column hawaii_sample)) = Inr (2017, 8, 23)"
    by (simp add: hawaii_latest strptime_2017_08_23)
  have le: "((2010, 1, 1) :: datetime) \<le> (2017, 8, 23)" by simp
  show ?thesis
    using data_date_error_unreachable [OF lo hi le, of "''2020-01-01''" "''2021-01-01''"]
    by (simp add: hawaii_earliest hawaii_latest strptime_2010_01_01 strptime_2017_08_23)
qed

section \<open>One year before a leap day\<close>

lemma no_leap_day_year_before:
  assumes "check_date_fields y 2 29"
  shows "one_year_before (y, 2, 29) = Inl ValueError"
proof -
  from assms have "is_leap y" "1 \<le> y"
    by (auto simp: check_date_fields_def days_in_month_def split: if_splits)
  then have "y mod 4 = 0" by (simp add: is_leap_def)
  with \<open>1 \<le> y\<close> have "(y - 1) mod 4 \<noteq> 0" by presburger
  then have "\<not> is_leap (y - 1)" by (simp add: is_leap_def)
  then show ?thesis
    by (simp add: one_year_before_def dt_datetime_def check_date_fields_def days_in_month_def
        dt_year_def dt_month_def dt_day_def)
qed

text \<open>
  C10: when the latest measurement date (of the dataset for the precipitation route, of the
  most active station for the temperature route) is a 29th of February, building the date
  one year before raises ValueError and the handler fails with it.
\<close>

theorem leap_day_year_before_fails:
  "(sql_max (date_column ds) = Some latest \<and> strptime (Some latest) = Inr (y, 2, 29)
      \<longrightarrow> precip ds = Inl ValueError)
   \<and> (station_id ds = Inr sid
       \<and> sql_max (date_column (filter (\<lambda>m. m_station m = sid) ds)) = Some latest'
       \<and> strptime (Some latest') = Inr (y', 2, 29)
      \<longrightarrow> tobs ds = Inl ValueError)"
  by (auto simp add: precip_def tobs_def Let_def dest!: strptime_valid no_leap_day_year_before)

theorem leap_day_year_before_fails_witness:
  "sql_max (date_column leap_sample) = Some ''2016-02-29''
   \<and> strptime (Some ''2016-02-29'') = Inr (2016, 2, 29)
   \<and> precip leap_sample = Inl ValueError
   \<and> station_id leap_sample = Inr ''USC00519281''
   \<and> sql_max (date_column (filter (\<lambda>m. m_station m = ''USC00519281'') leap_sample))
       = Some ''2016-02-29''
   \<and> tobs leap_sample = Inl ValueError"
  using leap_day_year_before_fails [of leap_sample "''2016-02-29''" 2016 "''USC00519281''"
      "''2016-02-29''" 2016]
  by (simp add: leap_latest strptime_2016_02_29 leap_station leap_station_latest)

section \<open>Stored dates compare as calendar dates\<close>

lemma divmod_lex:
  fixes a b k :: nat
  assumes "0 < k"
  shows "a < b \<longleftrightarrow> a div k < b div k \<or> a div k = b div k \<and> a mod k < b mod k"
proof -
  have a: "a = k * (a div k) + a mod k" and b: "b = k * (b div k) + b mod k" by simp_all
  have ma: "a mod k < k" and mb: "b mod k < k" using assms by simp_all
  show ?thesis
  proof (cases "a div k < b div k")
    case True
    then have "a div k + 1 \<le> b div k" by simp
    then have "k * (a div k + 1) \<le> k * (b div k)" by (rule mult_le_mono2)
    then have "k * (a div k) + k \<le> k * (b div k)" by simp
    with ma have "k * (a div k) + a mod k < k * (b div k) + b mod k" by linarith
    with a b have "a < b" by metis
    with True show ?thesis by simp
  next
    case False
    show ?thesis
    proof (cases "a div k = b div k")
      case True
      then have "a < b \<longleftrightarrow> a mod k < b mod k"
        by (metis a b nat_add_left_cancel_less)
      with True show ?thesis by simp
    next
      case neq: False
      with False have "b div k < a div k" by simp
      then have "b div k + 1 \<le> a div k" by simp
      then have "k * (b div k + 1) \<le> k * (a div k)" by (rule mult_le_mono2)
      then have "k * (b div k) + k \<le> k * (a div k)" by simp
      with mb have "k * (b div k) + b mod k < k * (a div k) + a mod k" by linarith
      with a b have "b < a" by metis
      with False neq show ?thesis by simp
    qed
  qed
qed


lemma divmod_eq:
  fixes a b k :: nat
  shows "a = b \<longleftrightarrow> a div k = b div k \<and> a mod k = b mod k"
  by (metis mult_div_mod_eq)


lemma of_char_digit_char: "of_char (digit_char n) = 48 + n mod 10"
proof -
  have "n mod 10 < 10" by simp
  then have "48 + n mod 10 < 256" by linarith
  then have "(48 + n mod 10) mod 256 = 48 + n mod 10" by (rule mod_less)
  then show ?thesis by (simp add: digit_char_def)
qed


lemma digit_char_less: "digit_char a < digit_char b \<longleftrightarrow> a mod 10 < b mod 10"
  by (simp add: less_char_def of_char_digit_char)

lemma digit_char_eq: "digit_char a = digit_char b \<longleftrightarrow> a mod 10 = b mod 10"
proof
  assume "digit_char a = digit_char b"
  then have "(of_char (digit_char a) :: nat) = of_char (digit_char b)" by (rule arg_cong)
  then show "a mod 10 = b mod 10" by (simp only: of_char_digit_char add_left_cancel)
next
  assume "a mod 10 = b mod 10"
  then show "digit_char a = digit_char b" by (simp only: digit_char_def)
qed


lemma pad2_eq:
  assumes "a < 100" "b < 100"
  shows "pad2 a = pad2 b \<longleftrightarrow> a = b"
proof -
  from assms have "a div 10 < 10" "b div 10 < 10" by simp_all
  then have "pad2 a = pad2 b \<longleftrightarrow> a div 10 = b div 10 \<and> a mod 10 = b mod 10"
    by (simp add: pad2_def digit_char_eq)
  then show ?thesis using divmod_eq [of a b 10] by simp
qed

lemma pad2_less:
  assumes "a < 100" "b < 100"
  shows "pad2 a < pad2 b \<longleftrightarrow> a < b"
proof -
  from assms have "a div 10 < 10" "b div 10 < 10" by simp_all
  then have "pad2 a < pad2 b \<longleftrightarrow>
      a div 10 < b div 10 \<or> a div 10 = b div 10 \<and> a mod 10 < b mod 10"
    by (simp add: pad2_def digit_char_eq digit_char_less)
  then show ?thesis using divmod_lex [of 10 a b] by simp
qed

lemma append_less_same_length:
  fixes a a' b b' :: "'a::linorder list"
  assumes "length a = length a'"
  shows "a @ b < a' @ b' \<longleftrightarrow> a < a' \<or> a = a' \<and> b < b'"
  using assms by (induction a a' rule: list_induct2) auto

lemma pad4_split: "pad4 n = pad2 (n div 100) @ pad2 (n mod 100)"
proof -
  have a: "n div 100 div 10 = n div 1000" by (simp add: div_mult2_eq)
  have "n mod (10 * 10) = 10 * (n div 10 mod 10) + n mod 10" by (rule mod_mult2_eq)
  then have "n mod 100 div 10 = n div 10 mod 10" by simp
  then have b: "n mod 100 div 10 mod 10 = n div 10 mod 10" by simp
  have c: "n mod 100 mod 10 = n mod 10" by (simp add: mod_mod_cancel)
  show ?thesis by (simp add: pad4_def pad2_def digit_char_def a b c)
qed


lemma length_pad2 [simp]: "length (pad2 n) = 2"
  by (simp add: pad2_def)

lemma pad4_eq:
  assumes "a < 10000" "b < 10000"
  shows "pad4 a = pad4 b \<longleftrightarrow> a = b"
proof -
  from assms have "a div 100 < 100" "b div 100 < 100" by simp_all
  then show ?thesis
    using divmod_eq [of a b 100] by (simp add: pad4_split pad2_eq)
qed

lemma pad4_less:
  assumes "a < 10000" "b < 10000"
  shows "pad4 a < pad4 b \<longleftrightarrow> a < b"
proof -
  from assms have "a div 100 < 100" "b div 100 < 100" by simp_all
  then show ?thesis
    using divmod_lex [of 100 a b]
    by (simp add: pad4_split append_less_same_length pad2_eq pad2_less)
qed

lemma check_date_fields_bounds:
  assumes "check_date_fields y m d"
  shows "y < 10000 \<and> m < 100 \<and> d < 100"
  using assms by (auto simp: check_date_fields_def days_in_month_def split: if_splits)

lemma iso_format_less:
  assumes "check_date_fields y m d" "check_date_fields y' m' d'"
  shows "iso_format (y, m, d) < iso_format (y', m', d') \<longleftrightarrow> (y, m, d) < (y', m', d')"
proof -
  have b: "y < 10000" "m < 100" "d < 100" "y' < 10000" "m' < 100" "d' < 100"
    using assms check_date_fields_bounds by blast+
  have len: "length (pad4 y) = length (pad4 y')" by (simp add: pad4_def)
  have "iso_format (y, m, d) < iso_format (y', m', d') \<longleftrightarrow>
      pad4 y < pad4 y' \<or> pad4 y = pad4 y' \<and> (pad2 m < pad2 m' \<or> pad2 m = pad2 m' \<and> pad2 d < pad2 d')"
    by (simp add: iso_format_def dt_year_def dt_month_def dt_day_def
        append_less_same_length [OF len] append_less_same_length [of "pad2 m" "pad2 m'"])
  also have "\<dots> \<longleftrightarrow> y < y' \<or> y = y' \<and> (m < m' \<or> m = m' \<and> d < d')"
    by (simp add: pad4_less pad4_eq pad2_less pad2_eq b)
  also have "\<dots> \<longleftrightarrow> (y, m, d) < (y', m', d')"
    by auto
  finally show ?thesis .
qed

lemma iso_format_eq:
  assumes "check_date_fields y m d" "check_date_fields y' m' d'"
  shows "iso_format (y, m, d) = iso_format (y', m', d') \<longleftrightarrow> (y, m, d) = (y', m', d')"
proof -
  have b: "y < 10000" "m < 100" "d < 100" "y' < 10000" "m' < 100" "d' < 100"
    using assms check_date_fields_bounds by blast+
  have len: "length (pad4 y) = length (pad4 y')" by (simp add: pad4_def)
  have "iso_format (y, m, d) = iso_format (y', m', d') \<longleftrightarrow>
      pad4 y = pad4 y' \<and> pad2 m = pad2 m' \<and> pad2 d = pad2 d'"
    by (simp add: iso_format_def dt_year_def dt_month_def dt_day_def len)
  then show ?thesis by (simp add: pad4_eq pad2_eq b)
qed

lemma strptime_2016_08_23: "strptime (Some ''2016-08-23'') = Inr (2016, 8, 23)" by (simp add: strptime_eval)
lemma strptime_2016_08_24: "strptime (Some ''2016-08-24'') = Inr (2016, 8, 24)" by (simp add: strptime_eval)

lemmas iso_format_eval =
  iso_format_def pad4_def pad2_def digit_char_def dt_year_def dt_month_def dt_day_def
  char_of_def bit_iff_odd

lemma hawaii_dates:
  "date_of ''2010-01-01'' = (2010, 1, 1)"
  "date_of ''2016-08-23'' = (2016, 8, 23)"
  "date_of ''2016-08-24'' = (2016, 8, 24)"
  "date_of ''2017-01-01'' = (2017, 1, 1)"
  "date_of ''2017-08-23'' = (2017, 8, 23)"
  by (simp_all add: date_of_def strptime_2010_01_01 strptime_2016_08_23 strptime_2016_08_24
      strptime_2017_01_01 strptime_2017_08_23)

lemma hawaii_iso:
  "is_iso_date ''2010-01-01''"
  "is_iso_date ''2016-08-23''"
  "is_iso_date ''2016-08-24''"
  "is_iso_date ''2017-01-01''"
  "is_iso_date ''2017-08-23''"
  by (simp_all add: is_iso_date_def strptime_2010_01_01 strptime_2016_08_23 strptime_2016_08_24
      strptime_2017_01_01 strptime_2017_08_23 iso_format_eval)

lemma hawaii_sample_iso: "\<forall>r\<in>set hawaii_sample. is_iso_date (m_date r)"
  by (simp add: hawaii_sample_def hawaii_iso)


lemma is_iso_dateD:
  assumes "is_iso_date s"
  shows "\<exists>y m d. strptime (Some s) = Inr (y, m, d) \<and> check_date_fields y m d
           \<and> s = iso_format (y, m, d) \<and> date_of s = (y, m, d)"
proof -
  from assms obtain dt where p: "strptime (Some s) = Inr dt" and f: "iso_format dt = s"
    by (auto simp: is_iso_date_def split: sum.splits)
  obtain y m d where dt: "dt = (y, m, d)" by (cases dt) auto
  from p dt have "check_date_fields y m d" by (simp add: strptime_valid)
  with p f dt show ?thesis by (auto simp: date_of_def)
qed

lemma iso_date_less:
  assumes "is_iso_date a" "is_iso_date b"
  shows "a < b \<longleftrightarrow> date_of a < date_of b"
proof -
  from is_iso_dateD [OF assms(1)] obtain y m d where
    a: "check_date_fields y m d" "iso_format (y, m, d) = a" "date_of a = (y, m, d)" by metis
  from is_iso_dateD [OF assms(2)] obtain y' m' d' where
    b: "check_date_fields y' m' d'" "iso_format (y', m', d') = b" "date_of b = (y', m', d')" by metis
  show ?thesis
    using iso_format_less [OF a(1) b(1)] by (simp only: a b)
qed

lemma iso_date_eq:
  assumes "is_iso_date a" "is_iso_date b"
  shows "a = b \<longleftrightarrow> date_of a = date_of b"
proof -
  from is_iso_dateD [OF assms(1)] obtain y m d where
    a: "check_date_fields y m d" "iso_format (y, m, d) = a" "date_of a = (y, m, d)" by metis
  from is_iso_dateD [OF assms(2)] obtain y' m' d' where
    b: "check_date_fields y' m' d'" "iso_format (y', m', d') = b" "date_of b = (y', m', d')" by metis
  show ?thesis
    using iso_format_eq [OF a(1) b(1)] by (simp only: a b)
qed

lemma iso_date_le:
  assumes "is_iso_date a" "is_iso_date b"
  shows "a \<le> b \<longleftrightarrow> date_of a \<le> date_of b"
  using iso_date_less [OF assms] iso_date_eq [OF assms] by (auto simp: le_less)

lemma length_iso_format [simp]: "length (iso_format d) = 10"
  by (simp add: iso_format_def pad4_def pad2_def)

lemma bind_datetime_less:
  assumes "is_iso_date a" "check_date_fields y m d"
  shows "bind_datetime (y, m, d) < a \<longleftrightarrow> (y, m, d) < date_of a"
proof -
  from is_iso_dateD [OF assms(1)] obtain y' m' d' where
    a: "check_date_fields y' m' d'" "iso_format (y', m', d') = a" "date_of a = (y', m', d')"
    by metis
  have "bind_datetime (y, m, d) < iso_format (y', m', d') @ [] \<longleftrightarrow>
      iso_format (y, m, d) < iso_format (y', m', d')"
    unfolding bind_datetime_def by (subst append_less_same_length) simp_all
  then have "bind_datetime (y, m, d) < iso_format (y', m', d') \<longleftrightarrow>
      (y, m, d) < (y', m', d')"
    by (simp only: append_Nil2 iso_format_less [OF assms(2) a(1)])
  then show ?thesis by (simp only: a)
qed

section \<open>Aggregates\<close>

lemma sql_min_Min:
  assumes "non_null vs \<noteq> []"
  shows "sql_min vs = Some (Min (set (non_null vs)))"
proof -
  from assms obtain x xs where eq: "non_null vs = x # xs" by (cases "non_null vs") auto
  show ?thesis using Min.set_eq_fold [of x xs] by (simp add: sql_min_def eq)
qed

lemma sql_max_Max:
  assumes "non_null vs \<noteq> []"
  shows "sql_max vs = Some (Max (set (non_null vs)))"
proof -
  from assms obtain x xs where eq: "non_null vs = x # xs" by (cases "non_null vs") auto
  show ?thesis using Max.set_eq_fold [of x xs] by (simp add: sql_max_def eq)
qed

lemma sql_avg_double_mean:
  assumes "non_null vs \<noteq> []"
  shows "sql_avg vs = Some (double_mean (non_null vs))"
  using assms by (cases "non_null vs") (simp_all add: sql_avg_def)

lemma sum_list_lower:
  fixes xs :: "rat list"
  assumes "\<forall>x\<in>set xs. lo \<le> x"
  shows "lo * of_nat (length xs) \<le> sum_list xs"
  using assms by (induction xs) (auto simp: algebra_simps)

lemma sum_list_upper:
  fixes xs :: "rat list"
  assumes "\<forall>x\<in>set xs. x \<le> hi"
  shows "sum_list xs \<le> hi * of_nat (length xs)"
  using assms by (induction xs) (auto simp: algebra_simps)

lemma mean_bounds:
  fixes xs :: "rat list"
  assumes "xs \<noteq> []"
  shows "Min (set xs) \<le> sum_list xs / of_nat (length xs)"
    and "sum_list xs / of_nat (length xs) \<le> Max (set xs)"
proof -
  have pos: "(0::rat) < of_nat (length xs)" using assms by simp
  have "Min (set xs) * of_nat (length xs) \<le> sum_list xs"
    by (rule sum_list_lower) simp
  then show "Min (set xs) \<le> sum_list xs / of_nat (length xs)"
    using pos by (simp add: pos_le_divide_eq)
  have "sum_list xs \<le> Max (set xs) * of_nat (length xs)"
    by (rule sum_list_upper) simp
  then show "sum_list xs / of_nat (length xs) \<le> Max (set xs)"
    using pos by (simp add: pos_divide_le_eq)
qed

lemma whole_iff: "rat_of_int \<lfloor>x\<rfloor> = x \<longleftrightarrow> x \<in> \<int>"
  by (metis Ints_of_int of_int_floor)

lemma whole_mean:
  assumes "xs \<noteq> []" and "whole_readings xs"
  shows "double_mean xs = double (sum_list xs / of_nat (length xs))"
proof -
  define ks where "ks = map floor xs"
  define n where "n = length xs"
  have w: "\<forall>x\<in>set xs. x \<in> \<int> \<and> \<bar>x\<bar> * of_nat n < 2 ^ 53"
    using assms(2) by (auto simp add: whole_readings_def list_all_iff n_def whole_iff Ints_def)
  have xs: "xs = map of_int ks"
    unfolding ks_def using w by (induction xs) (auto simp: Ints_def)
  have len: "length ks = n" by (simp add: ks_def n_def)
  have npos: "0 < n" using assms(1) by (simp add: n_def)
  define B where "B = Max (abs ` set ks)"
  have ksne: "ks \<noteq> []" using assms(1) by (simp add: ks_def)
  have B1: "\<forall>k\<in>set ks. \<bar>k\<bar> \<le> B" by (simp add: B_def)
  have "B \<in> abs ` set ks" unfolding B_def using ksne by (intro Max_in) simp_all
  then obtain k0 where k0: "k0 \<in> set ks" "B = \<bar>k0\<bar>" by auto
  then have "of_int k0 \<in> set xs" by (simp add: xs)
  with w have "\<bar>rat_of_int k0\<bar> * of_nat n < 2 ^ 53" by blast
  then have "rat_of_int (\<bar>k0\<bar> * int n) < rat_of_int (2 ^ 53)" by simp
  then have "\<bar>k0\<bar> * int n < 2 ^ 53" by (simp only: of_int_less_iff)
  then have B2: "\<bar>0\<bar> + int (length ks) * B < 2 ^ 53"
    by (simp add: len k0(2) mult.commute)
  from foldl_kbn_int [OF B1 B2]
  have f: "foldl kbn_step (0, 0) xs = (of_int (sum_list ks), 0)" by (simp add: xs)
  have S: "sum_list xs = of_int (sum_list ks)"
    unfolding xs by (induction ks) simp_all
  have "\<bar>sum_list ks\<bar> \<le> int (length ks) * B"
    using B1 by (induction ks) (auto simp: algebra_simps)
  with B2 have "\<bar>sum_list ks\<bar> < 2 ^ 53" by simp
  then have "double (of_int (sum_list ks)) = of_int (sum_list ks)" by (rule double_of_int)
  then show ?thesis by (simp add: double_mean_def f S n_def)
qed

lemma whole_mean_bounds:
  assumes "xs \<noteq> []" and "whole_readings xs"
  shows "Min (set xs) \<le> double_mean xs \<and> double_mean xs \<le> Max (set xs)"
proof -
  define q where "q = sum_list xs / of_nat (length xs)"
  have w: "\<forall>x\<in>set xs. x \<in> \<int> \<and> \<bar>x\<bar> * of_nat (length xs) < 2 ^ 53"
    using assms(2) by (auto simp add: whole_readings_def list_all_iff whole_iff Ints_def)
  have n1: "(1::rat) \<le> of_nat (length xs)" using assms(1) by (cases xs) simp_all
  have small: "x \<in> \<int> \<and> \<bar>x\<bar> < 2 ^ 53" if "x \<in> set xs" for x
  proof -
    from w that have a: "x \<in> \<int>" "\<bar>x\<bar> * of_nat (length xs) < 2 ^ 53" by blast+
    have "\<bar>x\<bar> * 1 \<le> \<bar>x\<bar> * of_nat (length xs)" using n1 by (intro mult_left_mono) simp_all
    with a show ?thesis by simp
  qed
  have mem: "Min (set xs) \<in> set xs" "Max (set xs) \<in> set xs"
    using assms(1) by (simp_all add: Min_in Max_in)
  from small [OF mem(1)] obtain lo where lo: "Min (set xs) = of_int lo" "\<bar>Min (set xs)\<bar> < 2 ^ 53"
    by (auto elim: Ints_cases)
  from small [OF mem(2)] obtain hi where hi: "Max (set xs) = of_int hi" "\<bar>Max (set xs)\<bar> < 2 ^ 53"
    by (auto elim: Ints_cases)
  from mean_bounds [OF assms(1)] have b: "Min (set xs) \<le> q" "q \<le> Max (set xs)"
    by (simp_all add: q_def)
  with lo(2) hi(2) have "\<bar>q\<bar> < 2 ^ 53" by linarith
  from double_int_bounds [OF this] b lo(1) hi(1)
  have "Min (set xs) \<le> double q" "double q \<le> Max (set xs)" by simp_all
  then show ?thesis by (simp add: whole_mean [OF assms] q_def)
qed

lemma single_reading:
  fixes xs :: "rat list"
  assumes "length xs = 1"
  shows "Min (set xs) = Max (set xs)"
proof -
  from assms obtain x where "xs = [x]" by (cases xs) auto
  then show ?thesis by simp
qed

lemma Min_le_Max_list:
  fixes xs :: "rat list"
  assumes "xs \<noteq> []"
  shows "Min (set xs) \<le> Max (set xs)"
proof -
  from assms obtain x where x: "x \<in> set xs" by (cases xs) auto
  then have "Min (set xs) \<le> x" "x \<le> Max (set xs)" by simp_all
  then show ?thesis by (rule order_trans)
qed

lemma temp_stats_non_null:
  "temp_stats ds a b =
     (let readings = non_null (map m_tobs (filter (\<lambda>m. sql_between (m_date m) a b) ds))
      in if readings = [] then (None, None, None)
         else (Some (Min (set readings)), Some (double_mean readings), Some (Max (set readings))))"
proof (cases "non_null (map m_tobs (filter (\<lambda>m. sql_between (m_date m) a b) ds)) = []")
  case True
  then show ?thesis by (simp add: temp_stats_def sql_min_def sql_max_def sql_avg_def)
next
  case False
  then show ?thesis
    by (simp add: temp_stats_def Let_def sql_min_Min sql_max_Max sql_avg_double_mean)
qed

text \<open>
  C7, as the claim states it: whenever the range holds a temperature, the minimum is at
  most the average and the average at most the maximum.  The average is computed in double
  precision: for three readings of 60.2 degrees the sum is rounded up, and so is the
  quotient, which makes the average greater than the maximum.
\<close>

theorem temp_stats_mean_above_max:
  "temp_stats tenths_sample (Some ''2017-08-01'') (Some ''2017-08-03'') =
     (Some (4236198399495373 / 70368744177664),
      Some (8472396798990747 / 140737488355328),
      Some (4236198399495373 / 70368744177664))
   \<and> \<not> (8472396798990747 / 140737488355328 \<le> (4236198399495373 / 70368744177664 :: rat))"
  by (simp add: tenths_sample_def temp_stats_eval)

text \<open>
  C7, amended: for stored dates \<open>a\<close> and \<open>b\<close> and a dataset of stored dates, \<open>temp_stats\<close>
  aggregates the temperatures (the non-null values) of exactly the rows whose date lies
  between \<open>a\<close> and \<open>b\<close>, both included.  Without such a temperature the three results are
  \<^verbatim>\<open>None\<close>.  With one, the minimum and the maximum are the least and the greatest of these
  temperatures, the average is their mean as computed in double precision, the minimum is
  at most the maximum, and a single temperature makes minimum and maximum equal; the
  average lies between minimum and maximum when the temperatures are whole numbers whose
  sum is small enough to be exact (the absolute value of each, times their number, is below
  \<open>2 ^ 53\<close>).
\<close>

theorem temp_stats_aggregates:
  assumes "\<forall>r\<in>set ds. is_iso_date (m_date r)"
    and "is_iso_date a"
    and "is_iso_date b"
  shows "let readings = non_null (map m_tobs
             (filter (\<lambda>r. date_of a \<le> date_of (m_date r) \<and> date_of (m_date r) \<le> date_of b) ds))
         in if readings = [] then temp_stats ds (Some a) (Some b) = (None, None, None)
            else \<exists>TMin TAvg TMax.
                   temp_stats ds (Some a) (Some b) = (Some TMin, Some TAvg, Some TMax)
                   \<and> TMin = Min (set readings) \<and> TMax = Max (set readings)
                   \<and> TAvg = double_mean readings
                   \<and> TMin \<le> TMax
                   \<and> (length readings = 1 \<longrightarrow> TMin = TMax)
                   \<and> (whole_readings readings \<longrightarrow> TMin \<le> TAvg \<and> TAvg \<le> TMax)"
proof -
  have "filter (\<lambda>r. sql_between (m_date r) (Some a) (Some b)) ds =
      filter (\<lambda>r. date_of a \<le> date_of (m_date r) \<and> date_of (m_date r) \<le> date_of b) ds"
    using assms by (intro filter_cong) (auto simp: iso_date_le)
  then show ?thesis
    by (simp add: temp_stats_non_null [of ds "Some a" "Some b"] Let_def Min_le_Max_list
        single_reading whole_mean_bounds)
qed

theorem temp_stats_aggregates_witness:
  "list_all (\<lambda>r. is_iso_date (m_date r)) hawaii_sample
   \<and> is_iso_date ''2017-01-01'' \<and> is_iso_date ''2017-08-23''
   \<and> (\<exists>TMin TAvg TMax.
         temp_stats hawaii_sample (Some ''2017-01-01'') (Some ''2017-08-23'')
           = (Some TMin, Some TAvg, Some TMax)
         \<and> TMin \<le> TAvg \<and> TAvg \<le> TMax)"
proof -
  have r: "non_null (map m_tobs (filter (\<lambda>r. date_of ''2017-01-01'' \<le> date_of (m_date r)
          \<and> date_of (m_date r) \<le> date_of ''2017-08-23'') hawaii_sample)) = [72, 81]"
    by (simp add: hawaii_sample_def hawaii_dates)
  have w: "whole_readings [72, 81]"
    by (simp add: whole_readings_def)
  show ?thesis
    using temp_stats_aggregates [OF hawaii_sample_iso hawaii_iso(4) hawaii_iso(5)] w
    by (auto simp add: r hawaii_sample_iso hawaii_iso Let_def list_all_iff)
qed

section \<open>The precipitation route\<close>

lemma non_null_map_Some [simp]: "non_null (map (\<lambda>x. Some (f x)) xs) = map f xs"
  by (induction xs) auto

lemma sql_max_date_column:
  assumes "sql_max (date_column ds) = Some latest"
  shows "latest \<in> m_date ` set ds"
proof -
  have ne: "ds \<noteq> []" using assms by (auto simp: sql_max_def date_column_def)
  then have "non_null (date_column ds) \<noteq> []" by (simp add: date_column_def)
  from sql_max_Max [OF this] assms have "latest = Max (set (map m_date ds))"
    by (simp add: date_column_def)
  moreover have "Max (set (map m_date ds)) \<in> set (map m_date ds)"
    using ne by (intro Max_in) simp_all
  ultimately show ?thesis by simp
qed

lemma sorted_iso_dates:
  assumes "sorted (map k xs)" and "\<forall>x\<in>set xs. is_iso_date (k x)"
  shows "sorted (map (\<lambda>x. date_of (k x)) xs)"
proof -
  from assms(1) have "sorted_wrt (\<lambda>x y. k x \<le> k y) xs" by (simp add: sorted_map)
  then have "sorted_wrt (\<lambda>x y. date_of (k x) \<le> date_of (k y)) xs"
    by (rule sorted_wrt_mono_rel [rotated]) (use assms(2) in \<open>simp add: iso_date_le\<close>)
  then show ?thesis by (simp add: sorted_map)
qed

text \<open>
  C6: on a dataset of stored dates whose latest date has a day one year before it, the
  precipitation route returns the date and precipitation of exactly the rows dated after
  that day (each row once, a \<^verbatim>\<open>NULL\<close> precipitation kept as \<^verbatim>\<open>None\<close>), in ascending
  order of the date.
\<close>

theorem precip_last_year:
  assumes "\<forall>r\<in>set ds. is_iso_date (m_date r)"
    and "sql_max (date_column ds) = Some latest"
    and "date_of latest = (y, m, d)"
    and "check_date_fields (y - 1) m d"
  shows "\<exists>rows. precip ds = Inr (PrcpJson rows)
     \<and> mset rows = mset (map (\<lambda>r. (m_date r, m_prcp r))
                          (filter (\<lambda>r. (y - 1, m, d) < date_of (m_date r)) ds))
     \<and> sorted (map (\<lambda>row. date_of (fst row)) rows)"
proof -
  let ?d1 = "(y - 1, m, d)"
  let ?sel = "filter (\<lambda>r. ?d1 < date_of (m_date r)) ds"
  let ?res = "order_by m_date ?sel"
  from sql_max_date_column [OF assms(2)] assms(1) have "is_iso_date latest" by auto
  from is_iso_dateD [OF this] assms(3) have p: "strptime (Some latest) = Inr (y, m, d)"
    by auto
  have y1: "one_year_before (y, m, d) = Inr ?d1"
    using assms(4) by (simp add: one_year_before_def dt_datetime_def dt_year_def dt_month_def dt_day_def)
  have sel: "filter (\<lambda>r. bind_datetime ?d1 < m_date r) ds = ?sel"
    using assms(1,4) by (intro filter_cong) (auto simp: bind_datetime_less)
  have res: "precip ds = Inr (PrcpJson (map (\<lambda>r. (m_date r, m_prcp r)) ?res))"
    using sel y1 by (simp add: precip_def assms(2) p Let_def)
  have m: "mset (map (\<lambda>r. (m_date r, m_prcp r)) ?res) = mset (map (\<lambda>r. (m_date r, m_prcp r)) ?sel)"
    by (simp add: order_by_def)
  have "sorted (map m_date ?res)" by (simp add: order_by_def)
  moreover have "\<forall>r\<in>set ?res. is_iso_date (m_date r)"
    using assms(1) by (simp add: order_by_def)
  ultimately have "sorted (map (\<lambda>r. date_of (m_date r)) ?res)" by (rule sorted_iso_dates)
  then have s: "sorted (map (\<lambda>row. date_of (fst row)) (map (\<lambda>r. (m_date r, m_prcp r)) ?res))"
    by (simp add: comp_def)
  from res m s show ?thesis by blast
qed

theorem precip_last_year_witness:
  "list_all (\<lambda>r. is_iso_date (m_date r)) hawaii_sample
   \<and> sql_max (date_column hawaii_sample) = Some ''2017-08-23''
   \<and> date_of ''2017-08-23'' = (2017, 8, 23)
   \<and> check_date_fields (2017 - 1) 8 23
   \<and> (\<exists>rows. precip hawaii_sample = Inr (PrcpJson rows)
        \<and> mset rows = mset [(''2016-08-24'', None), (''2017-01-01'', Some (3 / 100)),
                             (''2017-08-23'', Some 0)]
        \<and> sorted (map (\<lambda>row. date_of (fst row)) rows))"
proof -
  have c: "check_date_fields (2017 - 1) 8 23"
    by (simp add: check_date_fields_def days_in_month_def)
  have "map (\<lambda>r. (m_date r, m_prcp r))
          (filter (\<lambda>r. (2017 - 1, 8, 23) < date_of (m_date r)) hawaii_sample)
        = [(''2016-08-24'', None), (''2017-01-01'', Some (3 / 100)), (''2017-08-23'', Some 0)]"
    by (simp add: hawaii_sample_def hawaii_dates)
  then show ?thesis
    using precip_last_year [OF hawaii_sample_iso hawaii_latest hawaii_dates(5) c]
    by (simp add: hawaii_sample_iso hawaii_latest hawaii_dates(5) check_date_fields_def
        days_in_month_def list_all_iff)
qed

section \<open>The most active station\<close>

lemma set_group_by_station:
  "set (group_by_station ds) = (\<lambda>s. (s, station_count ds s)) ` m_station ` set ds"
  by (auto simp: group_by_station_def station_count_def)

lemma sorted_group_by_station: "sorted (map fst (group_by_station ds))"
  by (simp add: group_by_station_def comp_def)

lemma station_count_zero:
  assumes "s \<notin> m_station ` set ds"
  shows "station_count ds s = 0"
  using assms by (auto simp: station_count_def filter_empty_conv)

lemma last_filter_keep:
  assumes "xs \<noteq> []" and "P (last xs)"
  shows "last (filter P xs) = last xs"
  using assms by (induction xs) (auto simp: filter_empty_conv)

lemma sorted_map_le_last:
  assumes "sorted (map f xs)" and "x \<in> set xs"
  shows "f x \<le> f (last xs)"
  using assms by (induction xs) auto

lemma station_count_mset:
  assumes "mset ds' = mset ds"
  shows "station_count ds' s = station_count ds s"
proof -
  have "size (mset (filter (\<lambda>m. m_station m = s) ds')) = size (mset (filter (\<lambda>m. m_station m = s) ds))"
    by (simp add: assms)
  then show ?thesis by (simp only: size_mset station_count_def)
qed

lemma station_id_characterised:
  assumes "ds \<noteq> []"
  shows "\<exists>s. station_id ds = Inr s
     \<and> s \<in> m_station ` set ds
     \<and> (\<forall>s'. station_count ds s' \<le> station_count ds s)
     \<and> (\<forall>s'\<in>m_station ` set ds. station_count ds s' = station_count ds s \<longrightarrow> s' \<le> s)"
proof -
  define G where "G = group_by_station ds"
  define L where "L = sort_key snd G"
  define r where "r = last L"
  have setG: "set G = (\<lambda>s. (s, station_count ds s)) ` m_station ` set ds"
    by (simp add: G_def set_group_by_station)
  have Gne: "G \<noteq> []" using assms setG by (cases G) auto
  then have Lne: "L \<noteq> []" by (metis L_def length_sort length_0_conv)
  have setL: "set L = set G" by (simp add: L_def)
  have n: "n_station ds = rev L" by (simp add: n_station_def order_by_desc_def L_def G_def)
  have rL: "r \<in> set L" using Lne by (simp add: r_def)
  then have r: "fst r \<in> m_station ` set ds" "snd r = station_count ds (fst r)"
    by (auto simp: setL setG)
  have id: "station_id ds = Inr (fst r)"
    using Lne by (cases "rev L") (simp_all add: station_id_def n r_def last_rev hd_rev [symmetric])
  have sortedL: "sorted (map snd L)" by (simp add: L_def)
  have max: "station_count ds s' \<le> station_count ds (fst r)" for s'
  proof (cases "s' \<in> m_station ` set ds")
    case True
    then have "(s', station_count ds s') \<in> set L" by (auto simp: setL setG)
    from sorted_map_le_last [OF sortedL this] show ?thesis by (simp add: r_def [symmetric] r(2))
  next
    case False
    then show ?thesis by (simp add: station_count_zero)
  qed
  have tie: "s' \<le> fst r"
    if "s' \<in> m_station ` set ds" "station_count ds s' = station_count ds (fst r)" for s'
  proof -
    let ?P = "\<lambda>y :: string \<times> nat. snd y = snd r"
    have stable: "filter ?P L = filter ?P G"
      unfolding L_def by (rule sort_key_stable)
    have "last (filter ?P L) = r"
      unfolding r_def using Lne by (intro last_filter_keep) (simp_all add: r_def)
    then have lastG: "last (filter ?P G) = r" by (simp only: stable)
    have mem: "(s', station_count ds s') \<in> set (filter ?P G)"
      using that by (auto simp: setG r(2))
    have "sorted (map fst (filter ?P G))"
      using sorted_group_by_station [of ds] by (intro sorted_filter) (simp add: G_def)
    from sorted_map_le_last [OF this mem] show ?thesis by (simp add: lastG)
  qed
  from id r(1) max tie show ?thesis by blast
qed

text \<open>
  C8: on a dataset with at least one row, the station chosen by the temperature route is a
  station of the dataset with the greatest number of rows, and it is the station with
  strictly more rows than every other one whenever there is such a station.  Among the
  stations with that greatest number of rows it is the last one in the order of the station
  identifiers, so the choice is fixed by the counts also when they are tied: every
  dataset with the same rows, in whatever order, gives the same station.
\<close>

theorem station_id_most_active:
  assumes "ds \<noteq> []"
  shows "\<exists>s. station_id ds = Inr s
     \<and> s \<in> m_station ` set ds
     \<and> (\<forall>s'. station_count ds s' \<le> station_count ds s)
     \<and> (\<forall>t. (\<forall>s'. s' \<noteq> t \<longrightarrow> station_count ds s' < station_count ds t) \<longrightarrow> t = s)
     \<and> (\<forall>s'\<in>m_station ` set ds. station_count ds s' = station_count ds s \<longrightarrow> s' \<le> s)
     \<and> (\<forall>ds'. mset ds' = mset ds \<longrightarrow> station_id ds' = Inr s)"
proof -
  from station_id_characterised [OF assms] obtain s where s:
    "station_id ds = Inr s" "s \<in> m_station ` set ds"
    "\<forall>s'. station_count ds s' \<le> station_count ds s"
    "\<forall>s'\<in>m_station ` set ds. station_count ds s' = station_count ds s \<longrightarrow> s' \<le> s"
    by blast
  have uniq: "t = s" if "\<forall>s'. s' \<noteq> t \<longrightarrow> station_count ds s' < station_count ds t" for t
  proof (rule ccontr)
    assume "t \<noteq> s"
    with that have "station_count ds s < station_count ds t" by simp
    with s(3) show False by (simp add: not_less [symmetric])
  qed
  have perm: "station_id ds' = Inr s" if eq: "mset ds' = mset ds" for ds'
  proof -
    from eq assms have ne: "ds' \<noteq> []" by auto
    from eq have set: "set ds' = set ds" by (rule mset_eq_setD)
    have cnt: "station_count ds' x = station_count ds x" for x
      by (rule station_count_mset [OF eq])
    from station_id_characterised [OF ne] obtain s2 where s2:
      "station_id ds' = Inr s2" "s2 \<in> m_station ` set ds"
      "\<forall>s'. station_count ds s' \<le> station_count ds s2"
      "\<forall>s'\<in>m_station ` set ds. station_count ds s' = station_count ds s2 \<longrightarrow> s' \<le> s2"
      unfolding set cnt by blast
    from s(3) s2(3) have c: "station_count ds s2 = station_count ds s" by (simp add: le_antisym)
    from s(4) s2(2) c have "s2 \<le> s" by blast
    moreover from s2(4) s(2) c have "s \<le> s2" by (metis (no_types))
    ultimately show ?thesis using s2(1) by simp
  qed
  from s uniq perm show ?thesis by blast
qed

theorem station_id_most_active_witness:
  "tied_sample \<noteq> [] \<and> station_id tied_sample = Inr ''USC00519397''"
proof -
  have ne: "tied_sample \<noteq> []" by (simp add: tied_sample_def)
  have c: "station_count tied_sample ''USC00519397'' = 1"
    "station_count tied_sample ''USC00519281'' = 1"
    by (simp_all add: station_count_def tied_sample_def)
  have st: "m_station ` set tied_sample = {''USC00519397'', ''USC00519281''}"
    by (simp add: tied_sample_def)
  from station_id_most_active [OF ne] obtain s where s:
    "station_id tied_sample = Inr s" "s \<in> m_station ` set tied_sample"
    "\<forall>s'\<in>m_station ` set tied_sample.
       station_count tied_sample s' = station_count tied_sample s \<longrightarrow> s' \<le> s"
    by blast
  from s(2) have "s = ''USC00519397'' \<or> s = ''USC00519281''" by (simp add: st)
  moreover have "s \<noteq> ''USC00519281''"
  proof
    assume e: "s = ''USC00519281''"
    with s(3) c have "''USC00519397'' \<le> ''USC00519281''" by (simp add: st)
    then show False by simp
  qed
  ultimately show ?thesis using s(1) ne by simp
qed

end
